theory Spec2Isabelle
  imports Complex_Main
begin

section \<open>Exceptions and POSIX paths\<close>

text \<open>
  A Python exception is kept as what the program reads from it: the class name
  (\<^verbatim>\<open>type(e).__name__\<close>), the message (\<^verbatim>\<open>str(e)\<close>), and whether its class derives from
  \<^verbatim>\<open>Exception\<close> (\<open>Exc\<close>) or from \<^verbatim>\<open>BaseException\<close> only (\<open>BaseExc\<close>; these are
  \<^verbatim>\<open>asyncio.CancelledError\<close>, \<^verbatim>\<open>KeyboardInterrupt\<close>, \<^verbatim>\<open>SystemExit\<close>, \<^verbatim>\<open>GeneratorExit\<close> and
  what derives from them). \<open>is_Exception e\<close> is \<^verbatim>\<open>isinstance(e, Exception)\<close>, the test that
  \<^verbatim>\<open>except Exception\<close> makes.
\<close>

datatype exc =
    Exc (exc_type: string) (exc_str: string)
  | BaseExc (exc_type: string) (exc_str: string)

fun is_Exception :: "exc \<Rightarrow> bool" where
  "is_Exception (Exc ty msg) = True"
| "is_Exception (BaseExc ty msg) = False"

text \<open>\<^verbatim>\<open>str.startswith\<close>.\<close>

definition startswith :: "string \<Rightarrow> string \<Rightarrow> bool" where
  "startswith s p = (take (length p) s = p)"

section \<open>The scanner object and the path filter (scanner.py)\<close>

text \<open>
  The payload handed to the progress callback; the callback is any callable, so it may
  return normally (\<open>None\<close>) or raise (\<open>Some e\<close>).
\<close>

record progress =
  p_current_path :: string
  p_dirs_scanned :: int
  p_files_scanned :: int
  p_size_scanned :: int

text \<open>
  The fields of \<^verbatim>\<open>DiskScanner\<close>. \<^verbatim>\<open>BATCH_SIZE\<close> is a class attribute read through
  \<^verbatim>\<open>self\<close>; the constructor leaves it at 1000.
\<close>

record DiskScanner =
  skip_paths :: "string set"
  max_depth :: int
  running :: bool
  cancelled :: bool
  progress_callback :: "(progress \<Rightarrow> exc option) option"
  BATCH_SIZE :: nat

definition default_skip :: "string set" where
  "default_skip = {''/proc'', ''/sys'', ''/dev'', ''/run'', ''/snap'',
                   ''/var/snap'', ''/tmp'', ''/var/tmp''}"

text \<open>\<^verbatim>\<open>DiskScanner.__init__(db, skip_paths=None, max_depth=0)\<close>.\<close>

definition DiskScanner_init :: "string list option \<Rightarrow> int \<Rightarrow> DiskScanner" where
  "DiskScanner_init user_skip md =
     \<lparr> skip_paths = set (case user_skip of None \<Rightarrow> [] | Some l \<Rightarrow> l) \<union> default_skip,
       max_depth = md,
       running = False,
       cancelled = False,
       progress_callback = None,
       BATCH_SIZE = 1000 \<rparr>"

definition set_progress_callback ::
  "DiskScanner \<Rightarrow> (progress \<Rightarrow> exc option) \<Rightarrow> DiskScanner" where
  "set_progress_callback self cb = self\<lparr>progress_callback := Some cb\<rparr>"

text \<open>\<^verbatim>\<open>DiskScanner._should_skip\<close>: the exact match first, then the loop over the skip set.\<close>

definition should_skip :: "DiskScanner \<Rightarrow> string \<Rightarrow> bool" where
  "should_skip self p =
     (if p \<in> skip_paths self then True
      else if (\<exists>skip \<in> skip_paths self. startswith p (skip @ ''/'')) then True
      else False)"

section \<open>The database (models.py)\<close>

text \<open>
  Tables are lists of rows in insertion order. Timestamps are ISO strings of one format in
  the program and are compared as such; here they are points on a clock, \<open>nat\<close>.
  The \<^verbatim>\<open>status\<close> column only ever holds the three literals below.
\<close>

datatype snapshot_status = Running | Completed | Failed

record snapshot =
  s_id :: nat
  s_mount_point :: string
  s_started_at :: nat
  s_completed_at :: "nat option"
  s_total_size :: int
  s_total_files :: int
  s_total_dirs :: int
  s_status :: snapshot_status

text \<open>The dictionary \<^verbatim>\<open>dir_entry\<close> the scanner builds for one directory.\<close>

record dir_entry =
  e_path :: string
  e_name :: string
  e_size :: int
  e_file_count :: int
  e_dir_count :: int
  e_depth :: nat
  e_parent_path :: "string option"
  e_is_dir :: int

text \<open>A row of \<^verbatim>\<open>entries\<close>: the dictionary, its snapshot and the (unused) error text.\<close>

record entry_row =
  r_snapshot_id :: nat
  r_entry :: dir_entry
  r_error :: "string option"

record scan_error =
  se_snapshot_id :: nat
  se_path :: string
  se_error_type :: string
  se_error_message :: string

text \<open>\<open>seq\<close> is the AUTOINCREMENT counter of \<^verbatim>\<open>snapshots\<close>.\<close>

record database =
  snapshots :: "snapshot list"
  entries :: "entry_row list"
  scan_errors :: "scan_error list"
  seq :: nat

definition create_snapshot :: "string \<Rightarrow> nat \<Rightarrow> database \<Rightarrow> nat \<times> database" where
  "create_snapshot mp now db =
     (let i = Suc (seq db) in
      (i, db\<lparr> snapshots := snapshots db @
                [\<lparr> s_id = i, s_mount_point = mp, s_started_at = now, s_completed_at = None,
                   s_total_size = 0, s_total_files = 0, s_total_dirs = 0,
                   s_status = Running \<rparr>],
              seq := i \<rparr>))"

definition complete_snapshot ::
  "nat \<Rightarrow> int \<Rightarrow> int \<Rightarrow> int \<Rightarrow> nat \<Rightarrow> database \<Rightarrow> database" where
  "complete_snapshot sid tsize tfiles tdirs now db =
     db\<lparr> snapshots := map (\<lambda>s. if s_id s = sid
                                 then s\<lparr> s_completed_at := Some now, s_total_size := tsize,
                                         s_total_files := tfiles, s_total_dirs := tdirs,
                                         s_status := Completed \<rparr>
                                 else s) (snapshots db) \<rparr>"

definition fail_snapshot :: "nat \<Rightarrow> string \<Rightarrow> nat \<Rightarrow> database \<Rightarrow> database" where
  "fail_snapshot sid err now db =
     db\<lparr> snapshots := map (\<lambda>s. if s_id s = sid
                                 then s\<lparr> s_completed_at := Some now, s_status := Failed \<rparr>
                                 else s) (snapshots db),
         scan_errors := scan_errors db @
           [\<lparr> se_snapshot_id = sid, se_path = ''/'', se_error_type = ''FATAL'',
              se_error_message = err \<rparr>] \<rparr>"

definition insert_entries_batch :: "nat \<Rightarrow> dir_entry list \<Rightarrow> database \<Rightarrow> database" where
  "insert_entries_batch sid es db =
     (if es = [] then db
      else db\<lparr> entries := entries db @
                 map (\<lambda>e. \<lparr> r_snapshot_id = sid, r_entry = e, r_error = None \<rparr>) es \<rparr>)"

definition log_error :: "nat \<Rightarrow> string \<Rightarrow> string \<Rightarrow> string \<Rightarrow> database \<Rightarrow> database" where
  "log_error sid p ty msg db =
     db\<lparr> scan_errors := scan_errors db @
           [\<lparr> se_snapshot_id = sid, se_path = p, se_error_type = ty,
              se_error_message = msg \<rparr>] \<rparr>"

subsection \<open>The growth query\<close>

text \<open>
  \<^verbatim>\<open>Database.get_top_growth\<close> is one SQL statement; each clause is a list operation.
  NULL is \<open>None\<close>. \<^verbatim>\<open>ORDER BY ... DESC\<close> is a stable sort on the negated key (SQL leaves
  the order of ties open), NULL timestamps last. The percentage is computed by SQLite in
  double precision; it is kept here as an exact rational, rounded to two decimals the way
  \<^verbatim>\<open>ROUND(x, 2)\<close> rounds (half away from zero).
\<close>

record growth_row =
  g_path :: string
  g_name :: string
  g_current_size :: int
  g_previous_size :: "int option"
  g_growth :: int
  g_growth_percent :: rat

definition ts_rank :: "nat option \<Rightarrow> int" where
  "ts_rank t = (case t of None \<Rightarrow> 0 | Some n \<Rightarrow> int n + 1)"

definition sql_limit :: "int \<Rightarrow> 'a list \<Rightarrow> 'a list" where
  "sql_limit n xs = (if n < 0 then xs else take (nat n) xs)"

definition sql_round2 :: "rat \<Rightarrow> rat" where
  "sql_round2 x = (if x < 0 then - (of_int \<lfloor>- x * 100 + 1 / 2\<rfloor> / 100)
                   else of_int \<lfloor>x * 100 + 1 / 2\<rfloor> / 100)"

text \<open>\<^verbatim>\<open>coalesce0\<close> is \<^verbatim>\<open>COALESCE(x, 0)\<close>.\<close>

definition coalesce0 :: "int option \<Rightarrow> int" where
  "coalesce0 x = (case x of None \<Rightarrow> 0 | Some v \<Rightarrow> v)"

text \<open>The CTEs \<^verbatim>\<open>recent\<close>, \<^verbatim>\<open>latest\<close> and \<^verbatim>\<open>previous\<close>.\<close>

definition completed_snapshots :: "database \<Rightarrow> snapshot list" where
  "completed_snapshots db = filter (\<lambda>s. s_status s = Completed) (snapshots db)"

definition recent :: "database \<Rightarrow> nat list" where
  "recent db =
     map s_id (take 2 (sort_key (\<lambda>s. - ts_rank (s_completed_at s)) (completed_snapshots db)))"

definition latest :: "database \<Rightarrow> nat option" where
  "latest db = (case take 1 (recent db) of [] \<Rightarrow> None | i # _ \<Rightarrow> Some i)"

definition previous :: "database \<Rightarrow> nat option" where
  "previous db = (case take 1 (drop 1 (recent db)) of [] \<Rightarrow> None | i # _ \<Rightarrow> Some i)"

text \<open>
  \<^verbatim>\<open>LEFT JOIN entries prev ON curr.path = prev.path AND prev.snapshot_id = (SELECT id FROM previous)\<close>:
  the matching rows, or one NULL row when there is none.
\<close>

definition left_join_prev :: "database \<Rightarrow> entry_row \<Rightarrow> entry_row option list" where
  "left_join_prev db cur =
     (let ms = filter (\<lambda>prv. e_path (r_entry cur) = e_path (r_entry prv)
                              \<and> Some (r_snapshot_id prv) = previous db) (entries db)
      in if ms = [] then [None] else map Some ms)"

text \<open>The SELECT list, for one joined pair.\<close>

definition select_growth :: "entry_row \<Rightarrow> entry_row option \<Rightarrow> growth_row" where
  "select_growth cur prv =
     (let csize = e_size (r_entry cur);
          psize = map_option (\<lambda>p. e_size (r_entry p)) prv
      in \<lparr> g_path = e_path (r_entry cur),
           g_name = e_name (r_entry cur),
           g_current_size = csize,
           g_previous_size = psize,
           g_growth = csize - coalesce0 psize,
           g_growth_percent =
             (case psize of
                Some ps \<Rightarrow> if ps > 0
                           then sql_round2 (of_int (csize - ps) * 100 / of_int ps)
                           else 100
              | None \<Rightarrow> 100) \<rparr>)"

definition get_top_growth :: "int \<Rightarrow> database \<Rightarrow> growth_row list" where
  "get_top_growth limit db =
     (let joined = concat (map (\<lambda>cur. map (\<lambda>prv. (cur, prv)) (left_join_prev db cur))
                             (entries db));
          kept = filter (\<lambda>(cur, prv).
                    Some (r_snapshot_id cur) = latest db
                    \<and> e_is_dir (r_entry cur) = 1
                    \<and> e_size (r_entry cur)
                        - coalesce0 (map_option (\<lambda>p. e_size (r_entry p)) prv) > 0) joined;
          rows = map (\<lambda>(cur, prv). select_growth cur prv) kept
      in sql_limit limit (sort_key (\<lambda>r. - g_growth r) rows))"


section \<open>Paths (posixpath)\<close>

text \<open>\<^verbatim>\<open>os.path.join\<close> with two arguments.\<close>

definition path_join :: "string \<Rightarrow> string \<Rightarrow> string" where
  "path_join a b =
     (if startswith b ''/'' then b
      else if a = [] \<or> last a = CHR ''/'' then a @ b
      else a @ ''/'' @ b)"

text \<open>\<^verbatim>\<open>os.path.basename\<close>: what follows the last separator.\<close>

definition basename :: "string \<Rightarrow> string" where
  "basename p = rev (takeWhile (\<lambda>c. c \<noteq> CHR ''/'') (rev p))"

text \<open>
  \<^verbatim>\<open>os.path.dirname\<close>: the head up to and including the last separator, with trailing
  separators stripped unless the head consists of separators only.
\<close>

definition dirname :: "string \<Rightarrow> string" where
  "dirname p =
     (let head = rev (dropWhile (\<lambda>c. c \<noteq> CHR ''/'') (rev p))
      in if head \<noteq> [] \<and> head \<noteq> replicate (length head) (CHR ''/'')
         then rev (dropWhile (\<lambda>c. c = CHR ''/'') (rev head))
         else head)"

text \<open>\<^verbatim>\<open>str.split('/')\<close>.\<close>

fun split_sep :: "string \<Rightarrow> string list" where
  "split_sep [] = [[]]"
| "split_sep (c # cs) =
     (if c = CHR ''/'' then [] # split_sep cs
      else (case split_sep cs of [] \<Rightarrow> [[c]] | w # ws \<Rightarrow> (c # w) # ws))"

text \<open>\<^verbatim>\<open>os.path.commonprefix\<close> of two lists of components.\<close>

fun commonprefix :: "string list \<Rightarrow> string list \<Rightarrow> string list" where
  "commonprefix (x # xs) (y # ys) = (if x = y then x # commonprefix xs ys else [])"
| "commonprefix _ _ = []"

text \<open>\<^verbatim>\<open>os.path.join(*parts)\<close> for a non-empty list of parts.\<close>

definition join_all :: "string list \<Rightarrow> string" where
  "join_all parts = (case parts of [] \<Rightarrow> [] | x # xs \<Rightarrow> foldl path_join x xs)"

text \<open>
  \<^verbatim>\<open>os.path.relpath(path, start)\<close>. Both arguments reach it as absolute, normalised paths
  (the mount point went through \<^verbatim>\<open>abspath\<close>, the others are joined from it and from
  directory names), so the \<^verbatim>\<open>abspath\<close> calls inside are the identity and are left out.
\<close>

definition relpath :: "string \<Rightarrow> string \<Rightarrow> string" where
  "relpath p start =
     (let start_list = filter (\<lambda>x. x \<noteq> []) (split_sep start);
          path_list = filter (\<lambda>x. x \<noteq> []) (split_sep p);
          i = length (commonprefix start_list path_list);
          rel_list = replicate (length start_list - i) ''..'' @ drop i path_list
      in if rel_list = [] then ''.'' else join_all rel_list)"

text \<open>\<^verbatim>\<open>DiskScanner._get_depth\<close>.\<close>

definition get_depth :: "string \<Rightarrow> string \<Rightarrow> nat" where
  "get_depth p base_path =
     (if p = base_path then 0 else length (split_sep (relpath p base_path)))"

section \<open>The file system and os.walk\<close>

text \<open>
  What the scanner can observe of a directory: either its listing fails with an
  \<^verbatim>\<open>OSError\<close>, or it lists non-directory entries, each with the outcome of \<^verbatim>\<open>os.lstat\<close> on
  it (an error or \<^verbatim>\<open>st_size\<close>), and directory entries, each flagged when it is a symbolic
  link to a directory.
\<close>

datatype fs_dir =
    Dir "(string \<times> (exc + int)) list" "(string \<times> bool \<times> fs_dir) list"
  | Unlistable exc

type_synonym yield = "string \<times> string list \<times> (string \<times> (exc + int)) list"

text \<open>
  \<^verbatim>\<open>os.walk(top, topdown=False, onerror=self._walk_error_handler)\<close>, links not followed:
  the sub-directories in listing order, then the directory itself. A symbolic link to a
  directory is named in \<^verbatim>\<open>dirs\<close> and not entered. When the listing fails the handler is
  called, which writes to the process log only, and nothing is yielded for the directory.
  The third component carries each file name with the outcome \<^verbatim>\<open>os.lstat\<close> will have.
\<close>

fun os_walk :: "string \<Rightarrow> fs_dir \<Rightarrow> yield list"
  and walk_subdirs :: "string \<Rightarrow> (string \<times> bool \<times> fs_dir) list \<Rightarrow> yield list" where
  "os_walk tp (Unlistable e) = []"
| "os_walk tp (Dir files subs) = walk_subdirs tp subs @ [(tp, map fst subs, files)]"
| "walk_subdirs tp [] = []"
| "walk_subdirs tp ((n, is_link, d) # rest) =
     (if is_link then [] else os_walk (path_join tp n) d) @ walk_subdirs tp rest"

section \<open>The scan (scanner.py)\<close>

record stats =
  st_total_size :: int
  st_total_files :: int
  st_total_dirs :: int
  st_errors :: int
  st_started_at :: nat
  st_completed_at :: "nat option"

text \<open>The local variables of \<^verbatim>\<open>scan\<close> that the loop changes, and the database.\<close>

record scan_state =
  ls_stats :: stats
  ls_dir_sizes :: "string \<rightharpoonup> dir_entry"
  ls_entries_batch :: "dir_entry list"
  ls_db :: database

definition cancel :: "DiskScanner \<Rightarrow> DiskScanner" where
  "cancel self = self\<lparr>cancelled := True\<rparr>"

definition is_running :: "DiskScanner \<Rightarrow> bool" where
  "is_running self = running self"

text \<open>
  \<^verbatim>\<open>cancel()\<close> is called from another task while the scan is suspended. The scan reads the
  flag once per yielded directory and once after the loop; \<open>cancel_at = Some k\<close> says that
  the call happens just before read number \<open>k\<close> (counted from 0), \<open>None\<close> that it never
  happens. The flag is only ever set, so every later read sees it too.
\<close>

definition flag_read :: "nat option \<Rightarrow> nat \<Rightarrow> bool" where
  "flag_read cancel_at i = (case cancel_at of None \<Rightarrow> False | Some k \<Rightarrow> k \<le> i)"

definition new_dir_entry :: "string \<Rightarrow> string \<Rightarrow> nat \<Rightarrow> dir_entry" where
  "new_dir_entry rt mount_point depth =
     \<lparr> e_path = rt,
       e_name = (if basename rt = [] then rt else basename rt),
       e_size = 0, e_file_count = 0, e_dir_count = 0,
       e_depth = depth,
       e_parent_path = (if rt \<noteq> mount_point then Some (dirname rt) else None),
       e_is_dir = 1 \<rparr>"

text \<open>The loop over \<^verbatim>\<open>files\<close>.\<close>

fun process_files ::
  "nat \<Rightarrow> string \<Rightarrow> (string \<times> (exc + int)) list \<Rightarrow> dir_entry \<times> stats \<times> database
     \<Rightarrow> dir_entry \<times> stats \<times> database" where
  "process_files sid rt [] acc = acc"
| "process_files sid rt ((filename, lstat) # rest) (de, st, db) =
     (let filepath = path_join rt filename in
      case lstat of
        Inr file_size \<Rightarrow>
          process_files sid rt rest
            (de\<lparr> e_size := e_size de + file_size, e_file_count := e_file_count de + 1 \<rparr>,
             st\<lparr> st_total_files := st_total_files st + 1,
                 st_total_size := st_total_size st + file_size \<rparr>,
             db)
      | Inl e \<Rightarrow>
          process_files sid rt rest
            (de, st\<lparr> st_errors := st_errors st + 1 \<rparr>,
             log_error sid filepath (exc_type e) (exc_str e) db))"

text \<open>The loop over \<^verbatim>\<open>dirs\<close>.\<close>

fun add_subdirs ::
  "string \<Rightarrow> (string \<rightharpoonup> dir_entry) \<Rightarrow> string list \<Rightarrow> dir_entry \<Rightarrow> dir_entry" where
  "add_subdirs rt ds [] de = de"
| "add_subdirs rt ds (dname # rest) de =
     (let dirpath = path_join rt dname in
      case ds dirpath of
        Some subdir \<Rightarrow>
          add_subdirs rt ds rest
            (de\<lparr> e_size := e_size de + e_size subdir,
                 e_file_count := e_file_count de + e_file_count subdir,
                 e_dir_count := e_dir_count de + (e_dir_count subdir + 1) \<rparr>)
      | None \<Rightarrow> add_subdirs rt ds rest de)"

text \<open>
  The body of the walk loop for a directory that passed the skip and depth tests. The
  second component is the exception the progress callback raised, if it did.
\<close>

definition scan_dir ::
  "DiskScanner \<Rightarrow> string \<Rightarrow> nat \<Rightarrow> yield \<Rightarrow> scan_state \<Rightarrow> scan_state \<times> exc option" where
  "scan_dir self mount_point sid y s =
     (case y of (rt, dirs, files) \<Rightarrow>
        let depth = get_depth rt mount_point;
            (de1, st1, db1) =
              process_files sid rt files
                (new_dir_entry rt mount_point depth, ls_stats s, ls_db s);
            de2 = add_subdirs rt (ls_dir_sizes s) dirs de1;
            st2 = st1\<lparr> st_total_dirs := st_total_dirs st1 + 1 \<rparr>;
            s1 = s\<lparr> ls_stats := st2,
                    ls_dir_sizes := (ls_dir_sizes s)(rt \<mapsto> de2),
                    ls_entries_batch := ls_entries_batch s @ [de2],
                    ls_db := db1 \<rparr>
        in if length (ls_entries_batch s1) \<ge> BATCH_SIZE self
           then let s2 = s1\<lparr> ls_db := insert_entries_batch sid (ls_entries_batch s1) db1,
                            ls_entries_batch := [] \<rparr>
                in (case progress_callback self of
                      None \<Rightarrow> (s2, None)
                    | Some cb \<Rightarrow>
                        (s2, cb \<lparr> p_current_path = rt,
                                  p_dirs_scanned = st_total_dirs st2,
                                  p_files_scanned = st_total_files st2,
                                  p_size_scanned = st_total_size st2 \<rparr>))
           else (s1, None))"

definition excluded :: "DiskScanner \<Rightarrow> string \<Rightarrow> string \<Rightarrow> bool" where
  "excluded self mount_point rt =
     (if should_skip self rt then True
      else max_depth self > 0 \<and> int (get_depth rt mount_point) > max_depth self)"

text \<open>
  The \<^verbatim>\<open>for root, dirs, files in os.walk(...)\<close> loop; \<open>i\<close> numbers the reads of the
  cancellation flag. It ends by exhausting the walk, by \<^verbatim>\<open>break\<close>, or by an exception.
\<close>

fun scan_loop ::
  "DiskScanner \<Rightarrow> nat option \<Rightarrow> string \<Rightarrow> nat \<Rightarrow> nat \<Rightarrow> yield list \<Rightarrow> scan_state
     \<Rightarrow> scan_state \<times> exc option" where
  "scan_loop self cancel_at mount_point sid i [] s = (s, None)"
| "scan_loop self cancel_at mount_point sid i (y # ys) s =
     (if flag_read cancel_at i then (s, None)
      else if excluded self mount_point (fst y)
      then scan_loop self cancel_at mount_point sid (Suc i) ys s
      else (case scan_dir self mount_point sid y s of
              (s', Some e) \<Rightarrow> (s', Some e)
            | (s', None) \<Rightarrow> scan_loop self cancel_at mount_point sid (Suc i) ys s'))"

text \<open>
  \<^verbatim>\<open>DiskScanner.scan\<close>, in two parts. \<open>scan_enter\<close> runs from the first line to the return
  of \<^verbatim>\<open>create_snapshot\<close>: \<open>Inl\<close> when the call has ended by raising, \<open>Inr\<close> when the
  snapshot row exists and the walk is about to start (every later \<^verbatim>\<open>await\<close> suspends the
  scan in such a state). \<open>fs\<close> gives the directory found at an absolute path, \<open>None\<close> when
  \<^verbatim>\<open>os.path.isdir\<close> is false. The mount point is taken as already absolute and normalised,
  so \<^verbatim>\<open>abspath\<close> is the identity. \<open>t0\<close> and \<open>t1\<close> are what \<^verbatim>\<open>datetime.now()\<close> returns at the
  start and at the end. Storage operations are taken to succeed.
\<close>

definition scan_enter ::
  "DiskScanner \<Rightarrow> (string \<Rightarrow> fs_dir option) \<Rightarrow> string \<Rightarrow> nat \<Rightarrow> database
     \<Rightarrow> (exc \<times> DiskScanner \<times> database) + (nat \<times> fs_dir \<times> DiskScanner \<times> database)" where
  "scan_enter self fs mount_point t0 db =
     (if running self then Inl (Exc ''RuntimeError'' ''Scan already in progress'', self, db)
      else let self1 = self\<lparr> running := True, cancelled := False \<rparr> in
        (case fs mount_point of
           None \<Rightarrow> Inl (Exc ''ValueError'' (''Mount point does not exist: '' @ mount_point),
                        self1\<lparr> running := False \<rparr>, db)
         | Some root_dir \<Rightarrow>
             (case create_snapshot mount_point t0 db of
                (snapshot_id, db1) \<Rightarrow> Inr (snapshot_id, root_dir, self1, db1))))"

text \<open>The \<^verbatim>\<open>stats\<close> dictionary, the empty \<^verbatim>\<open>dir_sizes\<close> and the empty batch a scan starts with.\<close>

definition stats0 :: "nat \<Rightarrow> stats" where
  "stats0 t0 = \<lparr> st_total_size = 0, st_total_files = 0, st_total_dirs = 0, st_errors = 0,
                 st_started_at = t0, st_completed_at = None \<rparr>"

definition state0 :: "nat \<Rightarrow> database \<Rightarrow> scan_state" where
  "state0 t0 db = \<lparr> ls_stats = stats0 t0, ls_dir_sizes = Map.empty, ls_entries_batch = [],
                   ls_db = db \<rparr>"

text \<open>
  \<open>scan_walk\<close> is the rest of the \<^verbatim>\<open>try\<close> statement. An exception that leaves the loop is
  caught by \<^verbatim>\<open>except Exception\<close> when it is an instance of \<^verbatim>\<open>Exception\<close>: then
  \<^verbatim>\<open>fail_snapshot\<close> runs, guarded by \<^verbatim>\<open>if snapshot_id\<close>, and the exception is raised again.
  Any other exception passes the handler by. On every path \<^verbatim>\<open>finally\<close> resets \<^verbatim>\<open>_running\<close>.
\<close>

definition scan_walk ::
  "DiskScanner \<Rightarrow> nat option \<Rightarrow> string \<Rightarrow> nat \<Rightarrow> fs_dir \<Rightarrow> nat \<Rightarrow> nat \<Rightarrow> database
     \<Rightarrow> (exc + stats) \<times> DiskScanner \<times> database" where
  "scan_walk self cancel_at mount_point snapshot_id root_dir t0 t1 db =
     (let ys = os_walk mount_point root_dir
      in case scan_loop self cancel_at mount_point snapshot_id 0 ys (state0 t0 db) of
           (s, Some e) \<Rightarrow>
             if is_Exception e
             then (Inl e, self\<lparr> running := False \<rparr>,
                   if snapshot_id \<noteq> 0 then fail_snapshot snapshot_id (exc_str e) t1 (ls_db s)
                   else ls_db s)
             else (Inl e, self\<lparr> running := False \<rparr>, ls_db s)
         | (s, None) \<Rightarrow>
             let db2 = (if ls_entries_batch s \<noteq> []
                        then insert_entries_batch snapshot_id (ls_entries_batch s) (ls_db s)
                        else ls_db s);
                 st = (ls_stats s)\<lparr> st_completed_at := Some t1 \<rparr>
             in if \<not> flag_read cancel_at (length ys)
                then (Inr st, self\<lparr> running := False \<rparr>,
                      complete_snapshot snapshot_id (st_total_size st) (st_total_files st)
                        (st_total_dirs st) t1 db2)
                else (Inr st, self\<lparr> running := False, cancelled := True \<rparr>,
                      fail_snapshot snapshot_id ''Cancelled by user'' t1 db2))"

definition scan ::
  "DiskScanner \<Rightarrow> nat option \<Rightarrow> (string \<Rightarrow> fs_dir option) \<Rightarrow> string \<Rightarrow> nat \<Rightarrow> nat
     \<Rightarrow> database \<Rightarrow> (exc + stats) \<times> DiskScanner \<times> database" where
  "scan self cancel_at fs mount_point t0 t1 db =
     (case scan_enter self fs mount_point t0 db of
        Inl (e, self', db') \<Rightarrow> (Inl e, self', db')
      | Inr (snapshot_id, root_dir, self1, db1) \<Rightarrow>
          scan_walk self1 cancel_at mount_point snapshot_id root_dir t0 t1 db1)"

section \<open>The scheduler (scheduler.py)\<close>

text \<open>
  \<open>scan_task\<close> is \<^verbatim>\<open>self._scan_task\<close>: \<open>None\<close>, or a task with its \<^verbatim>\<open>done()\<close> flag. The
  constructor sets it to \<open>None\<close> and no method assigns it. The configuration is reduced to
  the three scanner settings that \<^verbatim>\<open>trigger_scan\<close> reads.
\<close>

record ScanScheduler =
  scan_task :: "bool option"
  cfg_mount_points :: "string list"
  cfg_skip_paths :: "string list"
  cfg_max_depth :: int

definition ScanScheduler_init :: "string list \<Rightarrow> string list \<Rightarrow> int \<Rightarrow> ScanScheduler" where
  "ScanScheduler_init mps skips md =
     \<lparr> scan_task = None, cfg_mount_points = mps, cfg_skip_paths = skips, cfg_max_depth = md \<rparr>"

definition is_scan_running :: "ScanScheduler \<Rightarrow> bool" where
  "is_scan_running sched = (case scan_task sched of None \<Rightarrow> False | Some dn \<Rightarrow> \<not> dn)"

text \<open>
  \<^verbatim>\<open>run_scan\<close> up to the point where the scan of the first mount point has created its
  snapshot: it builds a new \<^verbatim>\<open>DiskScanner\<close>, sets the callback and calls \<^verbatim>\<open>scan\<close>. With no
  mount point the loop body never runs (\<open>None\<close>).
\<close>

definition run_scan_enter ::
  "string list \<Rightarrow> string list \<Rightarrow> int \<Rightarrow> (progress \<Rightarrow> exc option) option
     \<Rightarrow> (string \<Rightarrow> fs_dir option) \<Rightarrow> nat \<Rightarrow> database
     \<Rightarrow> ((exc \<times> DiskScanner \<times> database) + (nat \<times> fs_dir \<times> DiskScanner \<times> database)) option" where
  "run_scan_enter mount_points skips md cb fs t0 db =
     (let scanner0 = DiskScanner_init (Some skips) md;
          scanner = (case cb of None \<Rightarrow> scanner0 | Some f \<Rightarrow> set_progress_callback scanner0 f)
      in case mount_points of
           [] \<Rightarrow> None
         | mount_point # others \<Rightarrow> Some (scan_enter scanner fs mount_point t0 db))"

text \<open>
  \<^verbatim>\<open>ScanScheduler.trigger_scan\<close> up to the same point; the mount points are the argument, or
  the configured list when the argument is empty. The outer \<open>Inl\<close> is the exception of
  \<^verbatim>\<open>trigger_scan\<close>'s own guard, raised before anything else happens.
\<close>

definition trigger_scan_enter ::
  "ScanScheduler \<Rightarrow> string list \<Rightarrow> (progress \<Rightarrow> exc option) option
     \<Rightarrow> (string \<Rightarrow> fs_dir option) \<Rightarrow> nat \<Rightarrow> database
     \<Rightarrow> exc + ((exc \<times> DiskScanner \<times> database) + (nat \<times> fs_dir \<times> DiskScanner \<times> database)) option" where
  "trigger_scan_enter sched mount_points cb fs t0 db =
     (if is_scan_running sched
      then Inl (Exc ''RuntimeError'' ''A scan is already in progress'')
      else let mps = (if mount_points = [] then cfg_mount_points sched else mount_points)
           in Inr (run_scan_enter mps (cfg_skip_paths sched) (cfg_max_depth sched) cb fs t0 db))"

section \<open>What one scan computes, as list functions\<close>

text \<open>The sizes of the files whose metadata could be read, and the rows for the others.\<close>

definition ok_sizes :: "(string \<times> (exc + int)) list \<Rightarrow> int list" where
  "ok_sizes files = concat (map (\<lambda>(n, r). case r of Inr sz \<Rightarrow> [sz] | Inl e \<Rightarrow> []) files)"

definition error_rows :: "nat \<Rightarrow> string \<Rightarrow> (string \<times> (exc + int)) list \<Rightarrow> scan_error list" where
  "error_rows sid rt files =
     concat (map (\<lambda>(n, r). case r of
                    Inl e \<Rightarrow> [\<lparr> se_snapshot_id = sid, se_path = path_join rt n,
                                se_error_type = exc_type e, se_error_message = exc_str e \<rparr>]
                  | Inr sz \<Rightarrow> []) files)"

text \<open>The entry of one yielded directory, given the entries stored so far.\<close>

definition make_entry :: "string \<Rightarrow> (string \<rightharpoonup> dir_entry) \<Rightarrow> yield \<Rightarrow> dir_entry" where
  "make_entry mount_point ds y =
     (case y of (rt, dirs, files) \<Rightarrow>
        add_subdirs rt ds dirs
          ((new_dir_entry rt mount_point (get_depth rt mount_point))
             \<lparr> e_size := sum_list (ok_sizes files),
               e_file_count := int (length (ok_sizes files)) \<rparr>))"

text \<open>The entries a run of the loop over \<open>ys\<close> produces, in order, and the final dictionary.\<close>

fun walk_entries ::
  "DiskScanner \<Rightarrow> string \<Rightarrow> (string \<rightharpoonup> dir_entry) \<Rightarrow> yield list \<Rightarrow> dir_entry list" where
  "walk_entries self mount_point ds [] = []"
| "walk_entries self mount_point ds (y # ys) =
     (if excluded self mount_point (fst y) then walk_entries self mount_point ds ys
      else make_entry mount_point ds y
           # walk_entries self mount_point (ds(fst y \<mapsto> make_entry mount_point ds y)) ys)"

fun walk_dir_sizes ::
  "DiskScanner \<Rightarrow> string \<Rightarrow> (string \<rightharpoonup> dir_entry) \<Rightarrow> yield list
     \<Rightarrow> (string \<rightharpoonup> dir_entry)" where
  "walk_dir_sizes self mount_point ds [] = ds"
| "walk_dir_sizes self mount_point ds (y # ys) =
     (if excluded self mount_point (fst y) then walk_dir_sizes self mount_point ds ys
      else walk_dir_sizes self mount_point (ds(fst y \<mapsto> make_entry mount_point ds y)) ys)"

text \<open>The yields that are neither skipped nor beyond the depth limit.\<close>

definition kept :: "DiskScanner \<Rightarrow> string \<Rightarrow> yield list \<Rightarrow> yield list" where
  "kept self mount_point ys = filter (\<lambda>y. \<not> excluded self mount_point (fst y)) ys"

definition files_of :: "yield \<Rightarrow> (string \<times> (exc + int)) list" where
  "files_of y = snd (snd y)"

definition walk_total_size :: "yield list \<Rightarrow> int" where
  "walk_total_size ys = sum_list (map (\<lambda>y. sum_list (ok_sizes (files_of y))) ys)"

definition walk_total_files :: "yield list \<Rightarrow> int" where
  "walk_total_files ys = sum_list (map (\<lambda>y. int (length (ok_sizes (files_of y)))) ys)"

definition walk_error_rows :: "nat \<Rightarrow> yield list \<Rightarrow> scan_error list" where
  "walk_error_rows sid ys = concat (map (\<lambda>y. error_rows sid (fst y) (files_of y)) ys)"

definition entry_rows :: "nat \<Rightarrow> dir_entry list \<Rightarrow> entry_row list" where
  "entry_rows sid es = map (\<lambda>e. \<lparr> r_snapshot_id = sid, r_entry = e, r_error = None \<rparr>) es"

text \<open>A callback that never raises (or none at all).\<close>

definition callback_quiet :: "DiskScanner \<Rightarrow> bool" where
  "callback_quiet self = (case progress_callback self of None \<Rightarrow> True | Some cb \<Rightarrow> \<forall>p. cb p = None)"

text \<open>
  The rows of a snapshot once the pending batch is flushed, and the counters after the
  directories \<open>ys\<close> have been processed.
\<close>

definition persisted :: "nat \<Rightarrow> scan_state \<Rightarrow> entry_row list" where
  "persisted sid s = entries (ls_db s) @ entry_rows sid (ls_entries_batch s)"

definition stats_after :: "nat \<Rightarrow> stats \<Rightarrow> yield list \<Rightarrow> stats" where
  "stats_after sid st ys =
     st\<lparr> st_total_files := st_total_files st + walk_total_files ys,
         st_total_size := st_total_size st + walk_total_size ys,
         st_errors := st_errors st + int (length (walk_error_rows sid ys)),
         st_total_dirs := st_total_dirs st + int (length ys) \<rparr>"

section \<open>Unreadable files\<close>

text \<open>
  The same directory tree with every file whose \<^verbatim>\<open>lstat\<close> fails left out, and the same for
  one yielded triple.
\<close>

definition readable :: "string \<times> (exc + int) \<Rightarrow> bool" where
  "readable f = (case snd f of Inr sz \<Rightarrow> True | Inl e \<Rightarrow> False)"


definition strip_yield :: "yield \<Rightarrow> yield" where
  "strip_yield y = (fst y, fst (snd y), filter readable (files_of y))"


section \<open>Directory trees and their paths\<close>

text \<open>
  A name as a directory listing returns it: not empty, without a separator. A tree is well
  formed when the names in every listed directory are such names and differ from one
  another (what lies behind a symbolic link is not looked at).
\<close>

definition wf_name :: "string \<Rightarrow> bool" where
  "wf_name n = (n \<noteq> [] \<and> CHR ''/'' \<notin> set n)"

fun wf_fs :: "fs_dir \<Rightarrow> bool"
  and wf_subs :: "(string \<times> bool \<times> fs_dir) list \<Rightarrow> bool" where
  "wf_fs (Unlistable e) = True"
| "wf_fs (Dir files subs) =
     (distinct (map fst files @ map fst subs)
      \<and> (\<forall>n \<in> set (map fst files @ map fst subs). wf_name n)
      \<and> wf_subs subs)"
| "wf_subs [] = True"
| "wf_subs ((n, is_link, d) # rest) = ((is_link \<or> wf_fs d) \<and> wf_subs rest)"

text \<open>
  \<open>dir_prefix q\<close> is \<^verbatim>\<open>os.path.join(q, '')\<close>: what every path joined below \<open>q\<close> starts with.
  \<open>inside q p\<close> says that \<open>p\<close> is \<open>q\<close> or lies below it.
\<close>

definition dir_prefix :: "string \<Rightarrow> string" where
  "dir_prefix q = path_join q []"

definition inside :: "string \<Rightarrow> string \<Rightarrow> bool" where
  "inside q p = (p = q \<or> startswith p (dir_prefix q))"

definition strictly_inside :: "string \<Rightarrow> string \<Rightarrow> bool" where
  "strictly_inside q p = (p \<noteq> q \<and> inside q p)"

text \<open>Every object of a tree with its path, sub-directories before their parent.\<close>

datatype node_kind = ListedDir | UnlistableDir | LinkDir | FileNode

fun tree_nodes :: "string \<Rightarrow> fs_dir \<Rightarrow> (string \<times> node_kind) list"
  and sub_nodes :: "string \<Rightarrow> (string \<times> bool \<times> fs_dir) list \<Rightarrow> (string \<times> node_kind) list" where
  "tree_nodes q (Unlistable e) = [(q, UnlistableDir)]"
| "tree_nodes q (Dir files subs) =
     map (\<lambda>f. (path_join q (fst f), FileNode)) files @ sub_nodes q subs @ [(q, ListedDir)]"
| "sub_nodes q [] = []"
| "sub_nodes q ((n, is_link, d) # rest) =
     (if is_link then [(path_join q n, LinkDir)] else tree_nodes (path_join q n) d)
     @ sub_nodes q rest"

text \<open>
  The directory names of a yielded triple; a walk is in post-order when no directory named
  in a triple is yielded at or after that triple.
\<close>

definition dirs_of :: "yield \<Rightarrow> string list" where
  "dirs_of y = fst (snd y)"

fun postorder :: "yield list \<Rightarrow> bool" where
  "postorder [] = True"
| "postorder (y # ys) =
     ((\<forall>n \<in> set (dirs_of y). path_join (fst y) n \<notin> fst ` set (y # ys)) \<and> postorder ys)"

text \<open>
  The entries found in a dictionary for the directories named in a triple, the dictionary
  that a list of entries amounts to, and the entries of a list that lie strictly below a
  given one.
\<close>

definition child_entries :: "(string \<rightharpoonup> dir_entry) \<Rightarrow> string \<Rightarrow> string list \<Rightarrow> dir_entry list" where
  "child_entries ds rt dirs = List.map_filter (\<lambda>n. ds (path_join rt n)) dirs"

definition entry_at :: "dir_entry list \<Rightarrow> string \<rightharpoonup> dir_entry" where
  "entry_at es p = find (\<lambda>e. e_path e = p) es"

definition entries_below :: "dir_entry list \<Rightarrow> dir_entry \<Rightarrow> dir_entry list" where
  "entries_below es e = filter (\<lambda>c. strictly_inside (e_path e) (e_path c)) es"

text \<open>
  The non-empty components of a path; \<open>below mp ns q\<close> says that \<open>q\<close> lies \<open>ns\<close> below the
  mount point. A dictionary is clear at \<open>c\<close> when it holds nothing at or below \<open>c\<close>. A
  list of entries agrees with a list of processed directories when its sums are the
  totals of those directories.
\<close>

definition components :: "string \<Rightarrow> string list" where
  "components p = filter (\<lambda>x. x \<noteq> []) (split_sep p)"

definition below :: "string \<Rightarrow> string list \<Rightarrow> string \<Rightarrow> bool" where
  "below mp ns q = (components q = components mp @ ns \<and> (\<forall>n \<in> set ns. wf_name n))"

definition clear :: "(string \<rightharpoonup> dir_entry) \<Rightarrow> string \<Rightarrow> bool" where
  "clear ds c = (\<forall>p. inside c p \<longrightarrow> ds p = None)"

definition agrees :: "dir_entry list \<Rightarrow> yield list \<Rightarrow> bool" where
  "agrees cs ks =
     (sum_list (map e_size cs) = walk_total_size ks
      \<and> sum_list (map e_file_count cs) = walk_total_files ks
      \<and> sum_list (map (\<lambda>c. e_dir_count c + 1) cs) = int (length ks))"

text \<open>The paths of the persisted entries, and the database a call of \<^verbatim>\<open>scan\<close> leaves.\<close>

definition entry_paths :: "database \<Rightarrow> string list" where
  "entry_paths db = map (\<lambda>x. e_path (r_entry x)) (entries db)"

definition scanned_db :: "(exc + stats) \<times> DiskScanner \<times> database \<Rightarrow> database" where
  "scanned_db res = snd (snd res)"

text \<open>The persisted entries as pairs of path and \<^verbatim>\<open>dir_count\<close>.\<close>

definition entry_dir_counts :: "database \<Rightarrow> (string \<times> int) list" where
  "entry_dir_counts db = map (\<lambda>x. (e_path (r_entry x), e_dir_count (r_entry x))) (entries db)"

subsection \<open>The growth computation as the specification words it\<close>



text \<open>The row reported for a directory that has no counterpart: its whole size, at 100 percent.\<close>

definition full_size_row :: "entry_row \<Rightarrow> growth_row" where
  "full_size_row cur =
     \<lparr> g_path = e_path (r_entry cur), g_name = e_name (r_entry cur),
       g_current_size = e_size (r_entry cur), g_previous_size = None,
       g_growth = e_size (r_entry cur), g_growth_percent = 100 \<rparr>"

subsection \<open>Small databases\<close>

definition dir_row :: "nat \<Rightarrow> string \<Rightarrow> string \<Rightarrow> int \<Rightarrow> entry_row" where
  "dir_row sid p n sz =
     \<lparr> r_snapshot_id = sid,
       r_entry = \<lparr> e_path = p, e_name = n, e_size = sz, e_file_count = 0, e_dir_count = 0,
                   e_depth = 0, e_parent_path = None, e_is_dir = 1 \<rparr>,
       r_error = None \<rparr>"

definition done_snapshot :: "nat \<Rightarrow> nat \<Rightarrow> snapshot" where
  "done_snapshot i t =
     \<lparr> s_id = i, s_mount_point = ''/'', s_started_at = t, s_completed_at = Some t,
       s_total_size = 0, s_total_files = 0, s_total_dirs = 0, s_status = Completed \<rparr>"

definition db_empty :: database where
  "db_empty = \<lparr> snapshots = [], entries = [], scan_errors = [], seq = 0 \<rparr>"

text \<open>One completed snapshot holding \<^verbatim>\<open>/a\<close> with 5 bytes.\<close>

definition db_one :: database where
  "db_one = \<lparr> snapshots = [done_snapshot 1 1], entries = [dir_row 1 ''/a'' ''a'' 5],
              scan_errors = [], seq = 1 \<rparr>"


subsection \<open>A small directory tree\<close>

text \<open>
  \<^verbatim>\<open>/data\<close> holds a readable file of 10 bytes, a file whose \<^verbatim>\<open>lstat\<close> fails, a directory
  \<^verbatim>\<open>a\<close> with one file of 5 bytes, a directory \<^verbatim>\<open>locked\<close> that cannot be listed, and a
  symbolic link \<^verbatim>\<open>lnk\<close> to a directory.
\<close>

definition fs_small :: fs_dir where
  "fs_small = Dir [(''f1'', Inr 10), (''bad'', Inl (Exc ''PermissionError'' ''denied''))]
                  [(''a'', False, Dir [(''g'', Inr 5)] []),
                   (''locked'', False, Unlistable (Exc ''PermissionError'' ''no'')),
                   (''lnk'', True, Dir [] [])]"

text \<open>A file system with the one directory tree \<open>d\<close> at the path \<open>mp\<close>.\<close>

definition fs_at :: "string \<Rightarrow> fs_dir \<Rightarrow> string \<Rightarrow> fs_dir option" where
  "fs_at mp d p = (if p = mp then Some d else None)"

text \<open>A scanner that flushes after every entry and whose progress callback raises.\<close>

definition scanner_raising :: DiskScanner where
  "scanner_raising =
     (DiskScanner_init None 0)
       \<lparr> BATCH_SIZE := 1, progress_callback := Some (\<lambda>p. Some (Exc ''OSError'' ''boom'')) \<rparr>"

text \<open>The same with a callback in which the task is cancelled (\<^verbatim>\<open>asyncio.CancelledError\<close>).\<close>

definition scanner_interrupted :: DiskScanner where
  "scanner_interrupted =
     (DiskScanner_init None 0)
       \<lparr> BATCH_SIZE := 1, progress_callback := Some (\<lambda>p. Some (BaseExc ''CancelledError'' '''')) \<rparr>"

definition sched_data :: ScanScheduler where
  "sched_data = ScanScheduler_init [''/data''] [] 0"


section \<open>Path filter\<close>

text \<open>
  C8. A path is excluded exactly when it equals a skip path or starts with a skip path
  followed by the separator; the skip set of a constructed scanner is the configured list
  united with the built-in set; and \<^verbatim>\<open>/var/tmpX\<close> is not excluded on account of
  \<^verbatim>\<open>/var/tmp\<close>, while \<^verbatim>\<open>/var/tmp/x\<close> is.
\<close>

theorem should_skip_iff:
  "(should_skip self p \<longleftrightarrow>
      (\<exists>skip \<in> skip_paths self. p = skip \<or> startswith p (skip @ ''/'')))
   \<and> skip_paths (DiskScanner_init user md)
       = set (case user of None \<Rightarrow> [] | Some l \<Rightarrow> l) \<union> default_skip
   \<and> \<not> should_skip (DiskScanner_init None 0) ''/var/tmpX''
   \<and> should_skip (DiskScanner_init None 0) ''/var/tmp/x''"
proof -
  have a: "should_skip self p \<longleftrightarrow>
      (\<exists>skip \<in> skip_paths self. p = skip \<or> startswith p (skip @ ''/''))"
    by (auto simp: should_skip_def)
  have b: "skip_paths (DiskScanner_init user md)
       = set (case user of None \<Rightarrow> [] | Some l \<Rightarrow> l) \<union> default_skip"
    by (simp add: DiskScanner_init_def)
  have c: "\<not> should_skip (DiskScanner_init None 0) ''/var/tmpX''"
    by (simp add: should_skip_def DiskScanner_init_def default_skip_def startswith_def)
  have d: "should_skip (DiskScanner_init None 0) ''/var/tmp/x''"
    by (simp add: should_skip_def DiskScanner_init_def default_skip_def startswith_def)
  from a b c d show ?thesis by blast
qed

theorem should_skip_iff_witness:
  "should_skip (DiskScanner_init (Some [''/data/cache'']) 0) ''/data/cache/x''
   \<and> \<not> should_skip (DiskScanner_init (Some [''/data/cache'']) 0) ''/data/cachex''
   \<and> should_skip (DiskScanner_init (Some [''/data/cache'']) 0) ''/proc''"
proof -
  let ?sc = "DiskScanner_init (Some [''/data/cache'']) 0"
  have s: "skip_paths ?sc = set [''/data/cache''] \<union> default_skip"
    using should_skip_iff [of ?sc "''/''" "Some [''/data/cache'']" 0] by simp
  have "\<And>p. should_skip ?sc p \<longleftrightarrow>
      (\<exists>skip \<in> skip_paths ?sc. p = skip \<or> startswith p (skip @ ''/''))"
    using should_skip_iff [of ?sc _ None 0] by blast
  then show ?thesis
    unfolding s by (simp add: default_skip_def startswith_def)
qed

section \<open>Growth query\<close>













text \<open>
  C3, as the claim words it, fails: with exactly one completed snapshot the query is not
  empty.
\<close>

theorem one_snapshot_growth_counterexample:
  "length (completed_snapshots db_one) = 1 \<and> get_top_growth 10 db_one \<noteq> []"
  by code_simp

lemma recent_none: "completed_snapshots db = [] \<Longrightarrow> recent db = []"
  by (simp add: recent_def)

lemma recent_single: "completed_snapshots db = [s] \<Longrightarrow> recent db = [s_id s]"
  by (simp add: recent_def)

lemma get_top_growth_no_latest: "latest db = None \<Longrightarrow> get_top_growth n db = []"
  by (simp add: get_top_growth_def Let_def sql_limit_def split_def)

lemma left_join_no_previous: "previous db = None \<Longrightarrow> left_join_prev db cur = [None]"
  by (simp add: left_join_prev_def)

lemma get_top_growth_no_previous:
  assumes "latest db = Some l" and "previous db = None"
  shows "get_top_growth n db =
           sql_limit n (sort_key (\<lambda>r. - g_growth r)
             (map full_size_row
                (filter (\<lambda>c. r_snapshot_id c = l \<and> e_is_dir (r_entry c) = 1
                              \<and> e_size (r_entry c) > 0) (entries db))))"
proof -
  have j: "concat (map (\<lambda>cur. map (\<lambda>prv. (cur, prv)) (left_join_prev db cur)) (entries db))
        = map (\<lambda>cur. (cur, None)) (entries db)"
    by (simp add: left_join_no_previous[OF assms(2)])
  have f: "select_growth cur None = full_size_row cur" for cur
    by (simp add: select_growth_def full_size_row_def coalesce0_def Let_def)
  show ?thesis
    unfolding get_top_growth_def Let_def j assms(1)
    by (simp add: filter_map comp_def f coalesce0_def)
qed

text \<open>
  C3, amended. The query is a total function (it never raises). With no completed
  snapshot its result is empty. With exactly one completed snapshot it reports every
  directory entry of that snapshot whose size is positive, with growth equal to the size
  and 100 percent, largest first, cut to the limit.
\<close>

theorem get_top_growth_few_snapshots:
  "(completed_snapshots db = [] \<longrightarrow> get_top_growth n db = [])
   \<and> (completed_snapshots db = [s] \<longrightarrow>
        get_top_growth n db =
          sql_limit n (sort_key (\<lambda>r. - g_growth r)
            (map full_size_row
               (filter (\<lambda>c. r_snapshot_id c = s_id s \<and> e_is_dir (r_entry c) = 1
                             \<and> e_size (r_entry c) > 0) (entries db)))))"
proof (intro conjI impI)
  assume "completed_snapshots db = []"
  then have "latest db = None" by (simp add: recent_none latest_def)
  then show "get_top_growth n db = []" by (rule get_top_growth_no_latest)
next
  assume "completed_snapshots db = [s]"
  then have "latest db = Some (s_id s)" "previous db = None"
    by (simp_all add: recent_single latest_def previous_def)
  then show "get_top_growth n db =
          sql_limit n (sort_key (\<lambda>r. - g_growth r)
            (map full_size_row
               (filter (\<lambda>c. r_snapshot_id c = s_id s \<and> e_is_dir (r_entry c) = 1
                             \<and> e_size (r_entry c) > 0) (entries db))))"
    by (rule get_top_growth_no_previous)
qed

theorem get_top_growth_few_snapshots_witness:
  "get_top_growth 10 db_empty = []
   \<and> get_top_growth 10 db_one = [full_size_row (dir_row 1 ''/a'' ''a'' 5)]"
proof -
  have a: "completed_snapshots db_empty = []" by code_simp
  have b: "completed_snapshots db_one = [done_snapshot 1 1]" by code_simp
  have c: "s_id (done_snapshot 1 1) = 1" by (simp add: done_snapshot_def)
  have d: "entries db_one = [dir_row 1 ''/a'' ''a'' 5]" by (simp add: db_one_def)
  from get_top_growth_few_snapshots [of db_empty 10 "done_snapshot 1 1"] a
  have e: "get_top_growth 10 db_empty = []" by simp
  from get_top_growth_few_snapshots [of db_one 10 "done_snapshot 1 1"] b
  have "get_top_growth 10 db_one =
          sql_limit 10 (sort_key (\<lambda>r. - g_growth r)
            (map full_size_row
               (filter (\<lambda>c. r_snapshot_id c = s_id (done_snapshot 1 1) \<and> e_is_dir (r_entry c) = 1
                             \<and> e_size (r_entry c) > 0) (entries db_one))))"
    by blast
  then have "get_top_growth 10 db_one = [full_size_row (dir_row 1 ''/a'' ''a'' 5)]"
    unfolding c d by (simp add: dir_row_def sql_limit_def)
  with e show ?thesis by simp
qed

section \<open>The walk loop\<close>

lemma process_files_eq:
  "process_files sid rt files (de, st, db) =
     (de\<lparr> e_size := e_size de + sum_list (ok_sizes files),
          e_file_count := e_file_count de + int (length (ok_sizes files)) \<rparr>,
      st\<lparr> st_total_files := st_total_files st + int (length (ok_sizes files)),
          st_total_size := st_total_size st + sum_list (ok_sizes files),
          st_errors := st_errors st + int (length (error_rows sid rt files)) \<rparr>,
      db\<lparr> scan_errors := scan_errors db @ error_rows sid rt files \<rparr>)"
proof (induction files arbitrary: de st db)
  case Nil
  then show ?case by (simp add: ok_sizes_def error_rows_def)
next
  case (Cons f files)
  obtain n r where f: "f = (n, r)" by (cases f)
  show ?case
  proof (cases r)
    case (Inl e)
    then show ?thesis
      by (simp add: f Cons.IH ok_sizes_def error_rows_def log_error_def)
  next
    case (Inr sz)
    then show ?thesis
      by (simp add: f Cons.IH ok_sizes_def error_rows_def algebra_simps)
  qed
qed

lemma scan_dir_facts:
  assumes "scan_dir self mp sid y s = (s', r)"
  shows "ls_dir_sizes s' = (ls_dir_sizes s)(fst y \<mapsto> make_entry mp (ls_dir_sizes s) y)"
    and "persisted sid s' = persisted sid s @ entry_rows sid [make_entry mp (ls_dir_sizes s) y]"
    and "ls_stats s' = (ls_stats s)
           \<lparr> st_total_files := st_total_files (ls_stats s) + int (length (ok_sizes (files_of y))),
             st_total_size := st_total_size (ls_stats s) + sum_list (ok_sizes (files_of y)),
             st_errors := st_errors (ls_stats s) + int (length (error_rows sid (fst y) (files_of y))),
             st_total_dirs := st_total_dirs (ls_stats s) + 1 \<rparr>"
    and "scan_errors (ls_db s') = scan_errors (ls_db s) @ error_rows sid (fst y) (files_of y)"
    and "snapshots (ls_db s') = snapshots (ls_db s)"
    and "seq (ls_db s') = seq (ls_db s)"
    and "callback_quiet self \<Longrightarrow> r = None"
proof -
  obtain rt dirs files where y: "y = (rt, dirs, files)" by (cases y)
  have me: "make_entry mp (ls_dir_sizes s) (rt, dirs, files) =
        add_subdirs rt (ls_dir_sizes s) dirs
          ((new_dir_entry rt mp (get_depth rt mp))
             \<lparr> e_size := e_size (new_dir_entry rt mp (get_depth rt mp)) + sum_list (ok_sizes files),
               e_file_count := e_file_count (new_dir_entry rt mp (get_depth rt mp)) + int (length (ok_sizes files)) \<rparr>)"
    by (simp add: make_entry_def new_dir_entry_def)
  note defs = scan_dir_def y process_files_eq Let_def me files_of_def persisted_def
    insert_entries_batch_def entry_rows_def
  show "ls_dir_sizes s' = (ls_dir_sizes s)(fst y \<mapsto> make_entry mp (ls_dir_sizes s) y)"
    using assms by (auto simp: defs split: if_splits option.splits)
  show "persisted sid s' = persisted sid s @ entry_rows sid [make_entry mp (ls_dir_sizes s) y]"
    using assms by (auto simp: defs split: if_splits option.splits)
  show "ls_stats s' = (ls_stats s)
           \<lparr> st_total_files := st_total_files (ls_stats s) + int (length (ok_sizes (files_of y))),
             st_total_size := st_total_size (ls_stats s) + sum_list (ok_sizes (files_of y)),
             st_errors := st_errors (ls_stats s) + int (length (error_rows sid (fst y) (files_of y))),
             st_total_dirs := st_total_dirs (ls_stats s) + 1 \<rparr>"
    using assms by (auto simp: defs split: if_splits option.splits)
  show "scan_errors (ls_db s') = scan_errors (ls_db s) @ error_rows sid (fst y) (files_of y)"
    using assms by (auto simp: defs split: if_splits option.splits)
  show "snapshots (ls_db s') = snapshots (ls_db s)"
    using assms by (auto simp: defs split: if_splits option.splits)
  show "seq (ls_db s') = seq (ls_db s)"
    using assms by (auto simp: defs split: if_splits option.splits)
  show "callback_quiet self \<Longrightarrow> r = None"
    using assms by (auto simp: defs callback_quiet_def split: if_splits option.splits)
qed

lemma stats_after_Nil: "stats_after sid st [] = st"
  by (simp add: stats_after_def walk_total_files_def walk_total_size_def walk_error_rows_def)

lemma stats_after_Cons:
  "stats_after sid st (y # ys) =
     stats_after sid
       (st\<lparr> st_total_files := st_total_files st + int (length (ok_sizes (files_of y))),
             st_total_size := st_total_size st + sum_list (ok_sizes (files_of y)),
             st_errors := st_errors st + int (length (error_rows sid (fst y) (files_of y))),
             st_total_dirs := st_total_dirs st + 1 \<rparr>) ys"
  by (simp add: stats_after_def walk_total_files_def walk_total_size_def walk_error_rows_def
        algebra_simps)

lemma kept_Cons:
  "kept self mp (y # ys) = (if excluded self mp (fst y) then kept self mp ys else y # kept self mp ys)"
  by (simp add: kept_def)

lemma scan_loop_db_frame:
  "scan_loop self c mp sid i ys s = (s', r) \<Longrightarrow>
     snapshots (ls_db s') = snapshots (ls_db s) \<and> seq (ls_db s') = seq (ls_db s)
     \<and> (\<exists>errs. scan_errors (ls_db s') = scan_errors (ls_db s) @ errs)"
proof (induction self c mp sid i ys s arbitrary: s' r rule: scan_loop.induct)
  case (1 self c mp sid i s)
  then show ?case by simp
next
  case (2 self c mp sid i y ys s)
  show ?case
  proof (cases "flag_read c i")
    case True
    with "2.prems" show ?thesis by simp
  next
    case nf: False
    show ?thesis
    proof (cases "excluded self mp (fst y)")
      case True
      with nf "2.prems" "2.IH"(1) show ?thesis by simp
    next
      case ne: False
      obtain s1 r1 where sd: "scan_dir self mp sid y s = (s1, r1)" by (cases "scan_dir self mp sid y s")
      note f = scan_dir_facts(4,5,6)[OF sd]
      show ?thesis
      proof (cases r1)
        case None
        with nf ne sd "2.prems" have "scan_loop self c mp sid (Suc i) ys s1 = (s', r)" by simp
        from "2.IH"(2)[OF nf ne sd[symmetric] None this] f show ?thesis by auto
      next
        case (Some e)
        with nf ne sd "2.prems" have "s' = s1" by simp
        with f show ?thesis by simp
      qed
    qed
  qed
qed

lemma scan_loop_run:
  "scan_loop self None mp sid i ys s = (s', None) \<Longrightarrow>
     ls_dir_sizes s' = walk_dir_sizes self mp (ls_dir_sizes s) ys
     \<and> persisted sid s' = persisted sid s @ entry_rows sid (walk_entries self mp (ls_dir_sizes s) ys)
     \<and> ls_stats s' = stats_after sid (ls_stats s) (kept self mp ys)
     \<and> scan_errors (ls_db s') = scan_errors (ls_db s) @ walk_error_rows sid (kept self mp ys)"
proof (induction self "None :: nat option" mp sid i ys s arbitrary: s' rule: scan_loop.induct)
  case (1 self mp sid i s)
  then show ?case
    by (simp add: entry_rows_def kept_def stats_after_Nil walk_error_rows_def)
next
  case (2 self mp sid i y ys s)
  have nf: "\<not> flag_read None i" by (simp add: flag_read_def)
  show ?case
  proof (cases "excluded self mp (fst y)")
    case True
    with nf "2.prems" "2.hyps"(1) show ?thesis by (simp add: kept_Cons)
  next
    case ne: False
    obtain s1 r1 where sd: "scan_dir self mp sid y s = (s1, r1)" by (cases "scan_dir self mp sid y s")
    note f = scan_dir_facts(1,2,3,4)[OF sd]
    from nf ne sd "2.prems" have r1: "r1 = None" by (cases r1) auto
    with nf ne sd "2.prems" have "scan_loop self None mp sid (Suc i) ys s1 = (s', None)" by simp
    from "2.hyps"(2)[OF nf ne sd[symmetric] r1 this] f ne show ?thesis
      by (simp add: kept_Cons stats_after_Cons[of sid _ y] entry_rows_def walk_error_rows_def)
  qed
qed

lemma scan_loop_quiet:
  "callback_quiet self \<Longrightarrow> snd (scan_loop self c mp sid i ys s) = None"
proof (induction self c mp sid i ys s rule: scan_loop.induct)
  case (1 self c mp sid i s)
  then show ?case by simp
next
  case (2 self c mp sid i y ys s)
  obtain s1 r1 where sd: "scan_dir self mp sid y s = (s1, r1)" by (cases "scan_dir self mp sid y s")
  from scan_dir_facts(7)[OF sd "2.prems"] have r1: "r1 = None" .
  show ?case
    using "2.IH" "2.prems" sd r1 by (auto split: if_splits)
qed

lemma scan_loop_cancel:
  "scan_loop self (Some k) mp sid i ys s = scan_loop self None mp sid i (take (k - i) ys) s"
proof (induction self "Some k" mp sid i ys s rule: scan_loop.induct)
  case (1 self mp sid i s)
  then show ?case by simp
next
  case (2 self mp sid i y ys s)
  show ?case
  proof (cases "k \<le> i")
    case True
    then show ?thesis by (simp add: flag_read_def)
  next
    case False
    then have "k - i = Suc (k - Suc i)" by simp
    then have t: "take (k - i) (y # ys) = y # take (k - Suc i) ys"
      by (simp only: take_Suc_Cons)
    have nf: "\<not> flag_read (Some k) i" "\<not> flag_read None i" using False by (simp_all add: flag_read_def)
    show ?thesis
    proof (cases "excluded self mp (fst y)")
      case True
      with nf "2.hyps"(1) show ?thesis unfolding t by simp
    next
      case ne: False
      obtain s1 r1 where sd: "scan_dir self mp sid y s = (s1, r1)" by (cases "scan_dir self mp sid y s")
      show ?thesis
      proof (cases r1)
        case None
        from "2.hyps"(2)[OF nf(1) ne sd[symmetric] None] nf ne sd None show ?thesis unfolding t by simp
      next
        case (Some e)
        with nf ne sd show ?thesis unfolding t by simp
      qed
    qed
  qed
qed

section \<open>Entering and leaving a scan\<close>

lemma scan_started:
  "\<not> running self \<Longrightarrow> fs mp = Some root_dir \<Longrightarrow>
   scan self c fs mp t0 t1 db =
     scan_walk (self\<lparr> running := True, cancelled := False \<rparr>) c mp (Suc (seq db)) root_dir t0 t1
       (snd (create_snapshot mp t0 db))"
  by (simp add: scan_def scan_enter_def create_snapshot_def Let_def)

lemma create_snapshot_fields:
  "snapshots (snd (create_snapshot mp t0 db)) =
     snapshots db @ [\<lparr> s_id = Suc (seq db), s_mount_point = mp, s_started_at = t0,
                       s_completed_at = None, s_total_size = 0, s_total_files = 0,
                       s_total_dirs = 0, s_status = Running \<rparr>]"
  "entries (snd (create_snapshot mp t0 db)) = entries db"
  "scan_errors (snd (create_snapshot mp t0 db)) = scan_errors db"
  "seq (snd (create_snapshot mp t0 db)) = Suc (seq db)"
  by (simp_all add: create_snapshot_def Let_def)

lemma fail_snapshot_fields:
  "snapshots (fail_snapshot sid err now db) =
     map (\<lambda>s. if s_id s = sid then s\<lparr> s_completed_at := Some now, s_status := Failed \<rparr> else s)
       (snapshots db)"
  "entries (fail_snapshot sid err now db) = entries db"
  "scan_errors (fail_snapshot sid err now db) =
     scan_errors db @ [\<lparr> se_snapshot_id = sid, se_path = ''/'', se_error_type = ''FATAL'',
                          se_error_message = err \<rparr>]"
  "seq (fail_snapshot sid err now db) = seq db"
  by (simp_all add: fail_snapshot_def)

lemma complete_snapshot_fields:
  "snapshots (complete_snapshot sid a b c now db) =
     map (\<lambda>s. if s_id s = sid
              then s\<lparr> s_completed_at := Some now, s_total_size := a, s_total_files := b,
                      s_total_dirs := c, s_status := Completed \<rparr>
              else s) (snapshots db)"
  "entries (complete_snapshot sid a b c now db) = entries db"
  "scan_errors (complete_snapshot sid a b c now db) = scan_errors db"
  "seq (complete_snapshot sid a b c now db) = seq db"
  by (simp_all add: complete_snapshot_def)

text \<open>
  On one scanner object the guard of \<^verbatim>\<open>scan\<close> works: a call on a running scanner raises
  and changes nothing.
\<close>

lemma scan_rejects_when_running:
  "running self \<Longrightarrow>
   scan self c fs mp t0 t1 db = (Inl (Exc ''RuntimeError'' ''Scan already in progress''), self, db)"
  by (simp add: scan_def scan_enter_def)

text \<open>
  C6. Through \<^verbatim>\<open>trigger_scan\<close> the guard is never reached by a running scanner. The first
  request has created its snapshot and is suspended in its walk (its scanner is running,
  one \<^verbatim>\<open>running\<close> row exists); the scheduler's own guard reads \<^verbatim>\<open>_scan_task\<close>, which is
  still \<open>None\<close>; a second request then builds a fresh scanner and creates a second
  \<^verbatim>\<open>running\<close> row.
\<close>

theorem second_trigger_not_rejected:
  "(case trigger_scan_enter sched_data [] None (fs_at ''/data'' fs_small) 1 db_empty of
      Inr (Some (Inr (sid1, d1, scanner1, db1))) \<Rightarrow>
        running scanner1
        \<and> map s_status (snapshots db1) = [Running]
        \<and> \<not> is_scan_running sched_data
        \<and> (case trigger_scan_enter sched_data [] None (fs_at ''/data'' fs_small) 2 db1 of
              Inr (Some (Inr (sid2, d2, scanner2, db2))) \<Rightarrow>
                map s_status (snapshots db2) = [Running, Running]
            | _ \<Rightarrow> False)
    | _ \<Rightarrow> False)"
  by code_simp

text \<open>
  C5, as the claim words it, fails three times. For a mount point that is not a directory
  the exception is raised before a snapshot exists: nothing is persisted. The row written
  by \<^verbatim>\<open>fail_snapshot\<close> carries the literal path \<^verbatim>\<open>/\<close>, not the scan root \<^verbatim>\<open>/data\<close>. And an
  exception that is not an instance of \<^verbatim>\<open>Exception\<close> (here the cancellation of the task
  inside the progress callback) escapes the walk and reaches the caller while the snapshot
  stays \<^verbatim>\<open>running\<close> and no \<^verbatim>\<open>FATAL\<close> row is written.
\<close>

theorem fatal_failure_counterexample:
  "fst (scan (DiskScanner_init None 0) None (fs_at ''/data'' fs_small) ''/nope'' 1 2 db_empty)
     = Inl (Exc ''ValueError'' ''Mount point does not exist: /nope'')
   \<and> snapshots (scanned_db (scan (DiskScanner_init None 0) None (fs_at ''/data'' fs_small)
                                ''/nope'' 1 2 db_empty)) = []
   \<and> scan_errors (scanned_db (scan (DiskScanner_init None 0) None (fs_at ''/data'' fs_small)
                                ''/nope'' 1 2 db_empty)) = []
   \<and> fst (scan scanner_raising None (fs_at ''/data'' fs_small) ''/data'' 1 2 db_empty)
       = Inl (Exc ''OSError'' ''boom'')
   \<and> map s_mount_point (snapshots (scanned_db (scan scanner_raising None
                                (fs_at ''/data'' fs_small) ''/data'' 1 2 db_empty))) = [''/data'']
   \<and> map s_status (snapshots (scanned_db (scan scanner_raising None
                                (fs_at ''/data'' fs_small) ''/data'' 1 2 db_empty))) = [Failed]
   \<and> map se_path (scan_errors (scanned_db (scan scanner_raising None
                                (fs_at ''/data'' fs_small) ''/data'' 1 2 db_empty))) = [''/'']
   \<and> fst (scan scanner_interrupted None (fs_at ''/data'' fs_small) ''/data'' 1 2 db_empty)
       = Inl (BaseExc ''CancelledError'' '''')
   \<and> map s_status (snapshots (scanned_db (scan scanner_interrupted None
                                (fs_at ''/data'' fs_small) ''/data'' 1 2 db_empty))) = [Running]
   \<and> map se_error_type (scan_errors (scanned_db (scan scanner_interrupted None
                                (fs_at ''/data'' fs_small) ''/data'' 1 2 db_empty))) = []"
  by code_simp

text \<open>
  C5, amended. A mount point that is not an existing directory makes \<^verbatim>\<open>scan\<close> raise
  \<^verbatim>\<open>ValueError\<close> before any snapshot is created, and the database is unchanged. When the
  walk of an existing mount point is left by an exception \<open>e\<close>, in the loop state \<open>s\<close>, the
  call of \<^verbatim>\<open>scan\<close> raises \<open>e\<close> to the caller and the scanner is no longer running. If \<open>e\<close> is
  an instance of \<^verbatim>\<open>Exception\<close>, the snapshot of this scan is marked failed and the error log
  is the one of \<open>s\<close> followed by the \<^verbatim>\<open>FATAL\<close> row with the fixed path \<^verbatim>\<open>/\<close> and the
  exception's message. If it is not, the database is left as the loop left it: the snapshot
  is still \<^verbatim>\<open>running\<close> and nothing is added to the error log.
\<close>

theorem scan_fatal_failure:
  assumes "\<not> running self"
  shows "(fs mp = None \<longrightarrow>
            scan self c fs mp t0 t1 db =
              (Inl (Exc ''ValueError'' (''Mount point does not exist: '' @ mp)),
               self\<lparr> running := False, cancelled := False \<rparr>, db))
       \<and> (\<forall>root_dir s e.
             fs mp = Some root_dir
             \<and> scan_loop (self\<lparr> running := True, cancelled := False \<rparr>) c mp (Suc (seq db)) 0
                 (os_walk mp root_dir) (state0 t0 (snd (create_snapshot mp t0 db))) = (s, Some e) \<longrightarrow>
               (\<exists>db'. scan self c fs mp t0 t1 db =
                         (Inl e, self\<lparr> running := False, cancelled := False \<rparr>, db')
                  \<and> length (snapshots db') = Suc (length (snapshots db))
                  \<and> entries db' = entries (ls_db s)
                  \<and> (is_Exception e \<longrightarrow>
                        last (snapshots db') =
                          \<lparr> s_id = Suc (seq db), s_mount_point = mp, s_started_at = t0,
                            s_completed_at = Some t1, s_total_size = 0, s_total_files = 0,
                            s_total_dirs = 0, s_status = Failed \<rparr>
                        \<and> scan_errors db' = scan_errors (ls_db s) @
                             [\<lparr> se_snapshot_id = Suc (seq db), se_path = ''/'',
                                se_error_type = ''FATAL'', se_error_message = exc_str e \<rparr>])
                  \<and> (\<not> is_Exception e \<longrightarrow>
                        last (snapshots db') =
                          \<lparr> s_id = Suc (seq db), s_mount_point = mp, s_started_at = t0,
                            s_completed_at = None, s_total_size = 0, s_total_files = 0,
                            s_total_dirs = 0, s_status = Running \<rparr>
                        \<and> scan_errors db' = scan_errors (ls_db s))))"
proof (intro conjI impI allI)
  assume "fs mp = None"
  with assms show "scan self c fs mp t0 t1 db =
              (Inl (Exc ''ValueError'' (''Mount point does not exist: '' @ mp)),
               self\<lparr> running := False, cancelled := False \<rparr>, db)"
    by (simp add: scan_def scan_enter_def)
next
  fix root_dir s e
  let ?self1 = "self\<lparr> running := True, cancelled := False \<rparr>"
  let ?db1 = "snd (create_snapshot mp t0 db)"
  let ?sid = "Suc (seq db)"
  let ?s0 = "state0 t0 ?db1"
  assume a: "fs mp = Some root_dir
             \<and> scan_loop ?self1 c mp ?sid 0 (os_walk mp root_dir) ?s0 = (s, Some e)"
  then have f: "fs mp = Some root_dir"
    and sl: "scan_loop ?self1 c mp ?sid 0 (os_walk mp root_dir) ?s0 = (s, Some e)"
    by auto
  let ?db' = "if is_Exception e then fail_snapshot ?sid (exc_str e) t1 (ls_db s) else ls_db s"
  have sw: "scan self c fs mp t0 t1 db = scan_walk ?self1 c mp ?sid root_dir t0 t1 ?db1"
    by (rule scan_started[where fs = fs and mp = mp and self = self, OF assms f])
  have sc: "scan self c fs mp t0 t1 db =
              (Inl e, self\<lparr> running := False, cancelled := False \<rparr>, ?db')"
    unfolding sw by (simp add: scan_walk_def sl)
  from scan_loop_db_frame[OF sl]
  have fr: "snapshots (ls_db s) = snapshots ?db1" by (simp add: state0_def)
  have ln: "length (snapshots ?db') = Suc (length (snapshots db))"
    by (simp add: fail_snapshot_fields fr create_snapshot_fields)
  have en: "entries ?db' = entries (ls_db s)"
    by (simp add: fail_snapshot_fields)
  have ex: "is_Exception e \<longrightarrow>
              last (snapshots ?db') =
                \<lparr> s_id = Suc (seq db), s_mount_point = mp, s_started_at = t0,
                  s_completed_at = Some t1, s_total_size = 0, s_total_files = 0,
                  s_total_dirs = 0, s_status = Failed \<rparr>
              \<and> scan_errors ?db' = scan_errors (ls_db s) @
                   [\<lparr> se_snapshot_id = Suc (seq db), se_path = ''/'',
                      se_error_type = ''FATAL'', se_error_message = exc_str e \<rparr>]"
    by (simp add: fail_snapshot_fields fr create_snapshot_fields)
  have nx: "\<not> is_Exception e \<longrightarrow>
              last (snapshots ?db') =
                \<lparr> s_id = Suc (seq db), s_mount_point = mp, s_started_at = t0,
                  s_completed_at = None, s_total_size = 0, s_total_files = 0,
                  s_total_dirs = 0, s_status = Running \<rparr>
              \<and> scan_errors ?db' = scan_errors (ls_db s)"
    by (simp add: fr create_snapshot_fields)
  from sc ln en ex nx
  show "\<exists>db'. scan self c fs mp t0 t1 db =
                         (Inl e, self\<lparr> running := False, cancelled := False \<rparr>, db')
                  \<and> length (snapshots db') = Suc (length (snapshots db))
                  \<and> entries db' = entries (ls_db s)
                  \<and> (is_Exception e \<longrightarrow>
                        last (snapshots db') =
                          \<lparr> s_id = Suc (seq db), s_mount_point = mp, s_started_at = t0,
                            s_completed_at = Some t1, s_total_size = 0, s_total_files = 0,
                            s_total_dirs = 0, s_status = Failed \<rparr>
                        \<and> scan_errors db' = scan_errors (ls_db s) @
                             [\<lparr> se_snapshot_id = Suc (seq db), se_path = ''/'',
                                se_error_type = ''FATAL'', se_error_message = exc_str e \<rparr>])
                  \<and> (\<not> is_Exception e \<longrightarrow>
                        last (snapshots db') =
                          \<lparr> s_id = Suc (seq db), s_mount_point = mp, s_started_at = t0,
                            s_completed_at = None, s_total_size = 0, s_total_files = 0,
                            s_total_dirs = 0, s_status = Running \<rparr>
                        \<and> scan_errors db' = scan_errors (ls_db s))"
    by blast
qed

theorem scan_fatal_failure_witness:
  "(case scan scanner_raising None (fs_at ''/data'' fs_small) ''/nope'' 1 2 db_empty of
      (r, self', db') \<Rightarrow> r = Inl (Exc ''ValueError'' ''Mount point does not exist: /nope'')
                          \<and> snapshots db' = [])
   \<and> (case scan scanner_raising None (fs_at ''/data'' fs_small) ''/data'' 1 2 db_empty of
         (r, self', db') \<Rightarrow>
            r = Inl (Exc ''OSError'' ''boom'')
            \<and> \<not> running self'
            \<and> last (snapshots db') =
                  \<lparr> s_id = 1, s_mount_point = ''/data'', s_started_at = 1,
                    s_completed_at = Some 2, s_total_size = 0, s_total_files = 0,
                    s_total_dirs = 0, s_status = Failed \<rparr>
            \<and> last (scan_errors db') =
                  \<lparr> se_snapshot_id = 1, se_path = ''/'', se_error_type = ''FATAL'',
                    se_error_message = ''boom'' \<rparr>)
   \<and> (case scan scanner_interrupted None (fs_at ''/data'' fs_small) ''/data'' 1 2 db_empty of
         (r, self', db') \<Rightarrow>
            r = Inl (BaseExc ''CancelledError'' '''')
            \<and> \<not> running self'
            \<and> last (snapshots db') =
                  \<lparr> s_id = 1, s_mount_point = ''/data'', s_started_at = 1,
                    s_completed_at = None, s_total_size = 0, s_total_files = 0,
                    s_total_dirs = 0, s_status = Running \<rparr>)"
proof -
  let ?fs = "fs_at ''/data'' fs_small"
  have nr: "\<not> running scanner_raising" "\<not> running scanner_interrupted"
    by (simp_all add: scanner_raising_def scanner_interrupted_def DiskScanner_init_def)
  have n: "?fs ''/nope'' = None" by (simp add: fs_at_def)
  have y: "?fs ''/data'' = Some fs_small" by (simp add: fs_at_def)
  have sq: "seq db_empty = 0" by (simp add: db_empty_def)
  obtain s1 r1 where l1: "scan_loop (scanner_raising\<lparr> running := True, cancelled := False \<rparr>)
      None ''/data'' (Suc (seq db_empty)) 0 (os_walk ''/data'' fs_small)
      (state0 1 (snd (create_snapshot ''/data'' 1 db_empty))) = (s1, r1)"
    by (cases "scan_loop (scanner_raising\<lparr> running := True, cancelled := False \<rparr>)
      None ''/data'' (Suc (seq db_empty)) 0 (os_walk ''/data'' fs_small)
      (state0 1 (snd (create_snapshot ''/data'' 1 db_empty)))")
  have "snd (scan_loop (scanner_raising\<lparr> running := True, cancelled := False \<rparr>)
      None ''/data'' (Suc (seq db_empty)) 0 (os_walk ''/data'' fs_small)
      (state0 1 (snd (create_snapshot ''/data'' 1 db_empty)))) = Some (Exc ''OSError'' ''boom'')"
    by code_simp
  with l1 have r1: "r1 = Some (Exc ''OSError'' ''boom'')" by simp
  obtain s2 r2 where l2: "scan_loop (scanner_interrupted\<lparr> running := True, cancelled := False \<rparr>)
      None ''/data'' (Suc (seq db_empty)) 0 (os_walk ''/data'' fs_small)
      (state0 1 (snd (create_snapshot ''/data'' 1 db_empty))) = (s2, r2)"
    by (cases "scan_loop (scanner_interrupted\<lparr> running := True, cancelled := False \<rparr>)
      None ''/data'' (Suc (seq db_empty)) 0 (os_walk ''/data'' fs_small)
      (state0 1 (snd (create_snapshot ''/data'' 1 db_empty)))")
  have "snd (scan_loop (scanner_interrupted\<lparr> running := True, cancelled := False \<rparr>)
      None ''/data'' (Suc (seq db_empty)) 0 (os_walk ''/data'' fs_small)
      (state0 1 (snd (create_snapshot ''/data'' 1 db_empty)))) = Some (BaseExc ''CancelledError'' '''')"
    by code_simp
  with l2 have r2: "r2 = Some (BaseExc ''CancelledError'' '''')" by simp
  from scan_fatal_failure [OF nr(1), of ?fs "''/nope''" None 1 2 db_empty] n
  have a: "scan scanner_raising None ?fs ''/nope'' 1 2 db_empty =
              (Inl (Exc ''ValueError'' (''Mount point does not exist: '' @ ''/nope'')),
               scanner_raising\<lparr> running := False, cancelled := False \<rparr>, db_empty)"
    by blast
  from scan_fatal_failure [OF nr(1), of ?fs "''/data''" None 1 2 db_empty] y l1[unfolded r1]
  obtain db1 where b: "scan scanner_raising None ?fs ''/data'' 1 2 db_empty =
        (Inl (Exc ''OSError'' ''boom''), scanner_raising\<lparr> running := False, cancelled := False \<rparr>, db1)"
      "last (snapshots db1) =
         \<lparr> s_id = Suc (seq db_empty), s_mount_point = ''/data'', s_started_at = 1,
           s_completed_at = Some 2, s_total_size = 0, s_total_files = 0,
           s_total_dirs = 0, s_status = Failed \<rparr>"
      "scan_errors db1 = scan_errors (ls_db s1) @
         [\<lparr> se_snapshot_id = Suc (seq db_empty), se_path = ''/'',
            se_error_type = ''FATAL'', se_error_message = exc_str (Exc ''OSError'' ''boom'') \<rparr>]"
    by (metis is_Exception.simps(1))
  from scan_fatal_failure [OF nr(2), of ?fs "''/data''" None 1 2 db_empty] y l2[unfolded r2]
  obtain db2 where c: "scan scanner_interrupted None ?fs ''/data'' 1 2 db_empty =
        (Inl (BaseExc ''CancelledError'' ''''),
         scanner_interrupted\<lparr> running := False, cancelled := False \<rparr>, db2)"
      "last (snapshots db2) =
         \<lparr> s_id = Suc (seq db_empty), s_mount_point = ''/data'', s_started_at = 1,
           s_completed_at = None, s_total_size = 0, s_total_files = 0,
           s_total_dirs = 0, s_status = Running \<rparr>"
    by (metis is_Exception.simps(2))
  from a b c show ?thesis
    by (simp add: sq db_empty_def)
qed

section \<open>Results of a scan whose walk ends without an exception\<close>

lemma excluded_flags [simp]:
  "excluded (self\<lparr> running := a, cancelled := b \<rparr>) mp p = excluded self mp p"
  by (simp add: excluded_def should_skip_def)

lemma walk_entries_flags [simp]:
  "walk_entries (self\<lparr> running := a, cancelled := b \<rparr>) mp ds ys = walk_entries self mp ds ys"
  by (induction ys arbitrary: ds) simp_all

lemma walk_dir_sizes_flags [simp]:
  "walk_dir_sizes (self\<lparr> running := a, cancelled := b \<rparr>) mp ds ys = walk_dir_sizes self mp ds ys"
  by (induction ys arbitrary: ds) simp_all

lemma kept_flags [simp]:
  "kept (self\<lparr> running := a, cancelled := b \<rparr>) mp ys = kept self mp ys"
  by (simp add: kept_def)

lemma callback_quiet_flags [simp]:
  "callback_quiet (self\<lparr> running := a, cancelled := b \<rparr>) = callback_quiet self"
  by (simp add: callback_quiet_def)

lemma walk_entries_append:
  "walk_entries self mp ds (xs @ ys) =
     walk_entries self mp ds xs @ walk_entries self mp (walk_dir_sizes self mp ds xs) ys"
  by (induction xs arbitrary: ds) simp_all

lemma flushed_entries:
  "entries (if ls_entries_batch s \<noteq> []
            then insert_entries_batch sid (ls_entries_batch s) (ls_db s) else ls_db s)
     = persisted sid s"
  by (simp add: persisted_def insert_entries_batch_def entry_rows_def)

lemma flushed_frame:
  "snapshots (if ls_entries_batch s \<noteq> []
            then insert_entries_batch sid (ls_entries_batch s) (ls_db s) else ls_db s)
     = snapshots (ls_db s)"
  "scan_errors (if ls_entries_batch s \<noteq> []
            then insert_entries_batch sid (ls_entries_batch s) (ls_db s) else ls_db s)
     = scan_errors (ls_db s)"
  "seq (if ls_entries_batch s \<noteq> []
            then insert_entries_batch sid (ls_entries_batch s) (ls_db s) else ls_db s)
     = seq (ls_db s)"
  by (simp_all add: insert_entries_batch_def)

text \<open>What a scan returns and persists once its walk has ended without an exception.\<close>

lemma scan_walk_returns:
  assumes "scan_loop self c mp sid 0 (os_walk mp root_dir) (state0 t0 db) = (s, None)"
  shows "scan_walk self c mp sid root_dir t0 t1 db =
          (let db2 = (if ls_entries_batch s \<noteq> []
                        then insert_entries_batch sid (ls_entries_batch s) (ls_db s)
                        else ls_db s);
               st = (ls_stats s)\<lparr> st_completed_at := Some t1 \<rparr>
           in if \<not> flag_read c (length (os_walk mp root_dir))
                then (Inr st, self\<lparr> running := False \<rparr>,
                      complete_snapshot sid (st_total_size st) (st_total_files st)
                        (st_total_dirs st) t1 db2)
                else (Inr st, self\<lparr> running := False, cancelled := True \<rparr>,
                      fail_snapshot sid ''Cancelled by user'' t1 db2))"
  using assms by (simp add: scan_walk_def Let_def)

lemma persisted_state0: "persisted sid (state0 t0 db) = entries db"
  by (simp add: persisted_def state0_def entry_rows_def)

lemma state0_fields:
  "ls_stats (state0 t0 db) = stats0 t0"
  "ls_dir_sizes (state0 t0 db) = Map.empty"
  "ls_entries_batch (state0 t0 db) = []"
  "ls_db (state0 t0 db) = db"
  by (simp_all add: state0_def)

lemma scan_quiet_loop:
  assumes "callback_quiet self"
  obtains s where "scan_loop self c mp sid i ys s0 = (s, None)"
  using scan_loop_quiet[OF assms, of c mp sid i ys s0]
  by (cases "scan_loop self c mp sid i ys s0") auto

section \<open>Cancellation\<close>

text \<open>
  C7. The flag is read once per yielded directory and once after the loop. When it is first
  seen set at read \<open>k\<close>, the walk stops there: exactly the first \<open>k\<close> yielded
  directories have been processed, each with all of its files. The pending batch is still
  flushed, so the persisted entries are those of these directories, and they are an initial
  segment of what the same scan persists when it is not cancelled: every entry is whole or
  absent. The call returns its statistics, the scanner is no longer running, the snapshot
  is failed, and the last row of the error log is the \<^verbatim>\<open>FATAL\<close> row whose reason is the fixed
  text \<^verbatim>\<open>Cancelled by user\<close>.
\<close>

theorem scan_cancelled:
  assumes nr: "\<not> running self"
    and fs: "fs mp = Some root_dir"
    and quiet: "callback_quiet self"
    and k: "k \<le> length (os_walk mp root_dir)"
  shows "\<exists>st self' db'.
           scan self (Some k) fs mp t0 t1 db = (Inr st, self', db')
           \<and> cancelled self' \<and> \<not> running self'
           \<and> entries db' = entries db @ entry_rows (Suc (seq db))
                 (walk_entries self mp Map.empty (take k (os_walk mp root_dir)))
           \<and> (\<exists>more. entries (snd (snd (scan self None fs mp t0 t1 db))) = entries db' @ more)
           \<and> st = (stats_after (Suc (seq db)) (stats0 t0) (kept self mp (take k (os_walk mp root_dir))))
                    \<lparr> st_completed_at := Some t1 \<rparr>
           \<and> last (snapshots db') =
                 \<lparr> s_id = Suc (seq db), s_mount_point = mp, s_started_at = t0,
                   s_completed_at = Some t1, s_total_size = 0, s_total_files = 0,
                   s_total_dirs = 0, s_status = Failed \<rparr>
           \<and> last (scan_errors db') =
                 \<lparr> se_snapshot_id = Suc (seq db), se_path = ''/'', se_error_type = ''FATAL'',
                   se_error_message = ''Cancelled by user'' \<rparr>"
proof -
  let ?self1 = "self\<lparr> running := True, cancelled := False \<rparr>"
  let ?db1 = "snd (create_snapshot mp t0 db)"
  let ?sid = "Suc (seq db)"
  let ?ys = "os_walk mp root_dir"
  have q1: "callback_quiet ?self1" using quiet by simp
  \<comment> \<open>the cancelled run\<close>
  obtain s where sl: "scan_loop ?self1 (Some k) mp ?sid 0 ?ys (state0 t0 ?db1) = (s, None)"
    using scan_quiet_loop[OF q1] by blast
  then have sl': "scan_loop ?self1 None mp ?sid 0 (take k ?ys) (state0 t0 ?db1) = (s, None)"
    by (simp add: scan_loop_cancel)
  note run = scan_loop_run[OF sl']
  note frame = scan_loop_db_frame[OF sl]
  have fl: "flag_read (Some k) (length ?ys)" using k by (simp add: flag_read_def)
  let ?db2 = "if ls_entries_batch s \<noteq> []
              then insert_entries_batch ?sid (ls_entries_batch s) (ls_db s) else ls_db s"
  let ?st = "(ls_stats s)\<lparr> st_completed_at := Some t1 \<rparr>"
  let ?db' = "fail_snapshot ?sid ''Cancelled by user'' t1 ?db2"
  have sc: "scan self (Some k) fs mp t0 t1 db
              = (Inr ?st, ?self1\<lparr> running := False, cancelled := True \<rparr>, ?db')"
    using scan_started[where fs = fs and mp = mp and self = self, OF nr fs, of "Some k" t0 t1 db]
      scan_walk_returns[OF sl, of t1] fl
    by (simp add: Let_def)
  have ent: "entries ?db' = entries db @ entry_rows ?sid (walk_entries self mp Map.empty (take k ?ys))"
    using run
    by (simp add: fail_snapshot_fields flushed_entries persisted_state0 create_snapshot_fields
          state0_fields)
  \<comment> \<open>the run that is not cancelled\<close>
  obtain sf where slf: "scan_loop ?self1 None mp ?sid 0 ?ys (state0 t0 ?db1) = (sf, None)"
    using scan_quiet_loop[OF q1] by blast
  note runf = scan_loop_run[OF slf]
  let ?dbf2 = "if ls_entries_batch sf \<noteq> []
              then insert_entries_batch ?sid (ls_entries_batch sf) (ls_db sf) else ls_db sf"
  let ?stf = "(ls_stats sf)\<lparr> st_completed_at := Some t1 \<rparr>"
  have scf: "scan self None fs mp t0 t1 db
              = (Inr ?stf, ?self1\<lparr> running := False \<rparr>,
                 complete_snapshot ?sid (st_total_size ?stf) (st_total_files ?stf)
                   (st_total_dirs ?stf) t1 ?dbf2)"
    using scan_started[where fs = fs and mp = mp and self = self, OF nr fs, of None t0 t1 db]
      scan_walk_returns[OF slf, of t1]
    by (simp add: Let_def flag_read_def)
  have "walk_entries self mp Map.empty ?ys =
          walk_entries self mp Map.empty (take k ?ys)
          @ walk_entries self mp (walk_dir_sizes self mp Map.empty (take k ?ys)) (drop k ?ys)"
    using walk_entries_append[of self mp Map.empty "take k ?ys" "drop k ?ys"] by simp
  then have entf: "entries (snd (snd (scan self None fs mp t0 t1 db))) =
          entries ?db' @ entry_rows ?sid
             (walk_entries self mp (walk_dir_sizes self mp Map.empty (take k ?ys)) (drop k ?ys))"
    using runf unfolding scf ent
    by (simp add: complete_snapshot_fields flushed_entries persisted_state0 create_snapshot_fields
          state0_fields entry_rows_def)
  have st: "?st = (stats_after ?sid (stats0 t0) (kept self mp (take k ?ys)))\<lparr> st_completed_at := Some t1 \<rparr>"
    using run by (simp add: state0_fields)
  have snaps: "last (snapshots ?db') =
                 \<lparr> s_id = Suc (seq db), s_mount_point = mp, s_started_at = t0,
                   s_completed_at = Some t1, s_total_size = 0, s_total_files = 0,
                   s_total_dirs = 0, s_status = Failed \<rparr>"
    using frame
    by (simp add: fail_snapshot_fields flushed_frame create_snapshot_fields state0_fields)
  have errs: "last (scan_errors ?db') =
                 \<lparr> se_snapshot_id = Suc (seq db), se_path = ''/'', se_error_type = ''FATAL'',
                   se_error_message = ''Cancelled by user'' \<rparr>"
    by (simp add: fail_snapshot_fields)
  from sc ent entf st snaps errs show ?thesis
    by (intro exI[of _ ?st] exI[of _ "?self1\<lparr> running := False, cancelled := True \<rparr>"] exI[of _ ?db'])
       (simp only: simp_thms, simp)
qed


theorem scan_cancelled_witness:
  "(case scan (DiskScanner_init None 0) (Some 1) (fs_at ''/data'' fs_small) ''/data'' 1 2 db_empty of
      (r, self', db') \<Rightarrow>
         (\<exists>st. r = Inr st) \<and> cancelled self' \<and> \<not> running self'
         \<and> map (\<lambda>x. e_path (r_entry x)) (entries db') = [''/data/a'']
         \<and> map se_error_message (scan_errors db') = [''Cancelled by user''])"
proof -
  let ?self = "DiskScanner_init None 0"
  let ?fs = "fs_at ''/data'' fs_small"
  have nr: "\<not> running ?self" by (simp add: DiskScanner_init_def)
  have fs: "?fs ''/data'' = Some fs_small" by (simp add: fs_at_def)
  have quiet: "callback_quiet ?self" by (simp add: callback_quiet_def DiskScanner_init_def)
  have k: "1 \<le> length (os_walk ''/data'' fs_small)" by code_simp
  have e: "map (\<lambda>x. e_path (r_entry x))
             (entries db_empty @ entry_rows (Suc (seq db_empty))
                (walk_entries ?self ''/data'' Map.empty (take 1 (os_walk ''/data'' fs_small))))
           = [''/data/a'']"
    by code_simp
  have m: "map se_error_message
             (scan_errors (snd (snd (scan ?self (Some 1) ?fs ''/data'' 1 2 db_empty))))
           = [''Cancelled by user'']"
    by code_simp
  from scan_cancelled [where fs = ?fs and mp = "''/data''" and self = ?self, OF nr fs quiet k, of 1 2 db_empty]
  obtain st self' db' where
    sc: "scan ?self (Some 1) ?fs ''/data'' 1 2 db_empty = (Inr st, self', db')"
    and c: "cancelled self'" "\<not> running self'"
    and en: "entries db' = entries db_empty @ entry_rows (Suc (seq db_empty))
                 (walk_entries ?self ''/data'' Map.empty (take 1 (os_walk ''/data'' fs_small)))"
    by blast
  from m sc have "map se_error_message (scan_errors db') = [''Cancelled by user'']" by simp
  with sc c en e show ?thesis by simp
qed

section \<open>Unreadable files\<close>



lemma ok_sizes_readable: "ok_sizes (filter readable files) = ok_sizes files"
  by (induction files) (auto simp: ok_sizes_def readable_def split: sum.splits)



lemma make_entry_strip: "make_entry mp ds (strip_yield y) = make_entry mp ds y"
  by (cases y) (simp add: make_entry_def strip_yield_def files_of_def ok_sizes_readable)








section \<open>Paths in a directory tree\<close>

lemma startswith_append: "startswith (a @ b) a"
  by (simp add: startswith_def)

lemma startswith_iff: "startswith s p \<longleftrightarrow> (\<exists>r. s = p @ r)"
  by (metis startswith_def append_eq_conv_conj append_take_drop_id)

lemma path_join_name: "wf_name n \<Longrightarrow> path_join q n = dir_prefix q @ n"
  by (cases n) (auto simp: wf_name_def path_join_def dir_prefix_def startswith_def)

lemma dir_prefix_cases: "dir_prefix q = q \<or> dir_prefix q = q @ ''/''"
  by (simp add: dir_prefix_def path_join_def startswith_def)

lemma dir_prefix_child:
  assumes "wf_name n"
  shows "dir_prefix (path_join q n) = path_join q n @ ''/''"
proof -
  have c: "path_join q n = dir_prefix q @ n" by (rule path_join_name[OF assms])
  from assms have "n \<noteq> []" "last n \<noteq> CHR ''/''"
    by (auto simp: wf_name_def dest: last_in_set)
  then have "path_join q n \<noteq> []" "last (path_join q n) \<noteq> CHR ''/''"
    by (simp_all add: c)
  then show ?thesis
    by (simp add: dir_prefix_def path_join_def[of "path_join q n"] startswith_def)
qed

lemma inside_refl: "inside q q"
  by (simp add: inside_def)

lemma inside_child_form:
  assumes "wf_name n" "inside (path_join q n) p"
  shows "\<exists>r. p = dir_prefix q @ n @ r \<and> (r = [] \<or> hd r = CHR ''/'')"
proof (cases "p = path_join q n")
  case True
  then show ?thesis by (simp add: path_join_name[OF assms(1)])
next
  case False
  with assms(2) have "startswith p (path_join q n @ ''/'')"
    by (simp add: inside_def dir_prefix_child[OF assms(1)])
  then obtain r where "p = (path_join q n @ ''/'') @ r" unfolding startswith_iff by blast
  then have "p = dir_prefix q @ n @ (''/'' @ r)" by (simp add: path_join_name[OF assms(1)])
  then show ?thesis by (intro exI[of _ "''/'' @ r"]) simp
qed

lemma inside_child_parent:
  assumes "wf_name n" "inside (path_join q n) p"
  shows "inside q p"
proof -
  from inside_child_form[OF assms] obtain r where "p = dir_prefix q @ n @ r" by blast
  then show ?thesis by (simp add: inside_def startswith_def)
qed

lemma takeWhile_name:
  assumes "wf_name n" "r = [] \<or> hd r = CHR ''/''"
  shows "takeWhile (\<lambda>c. c \<noteq> CHR ''/'') (n @ r) = n"
  using assms by (cases r) (auto simp: wf_name_def takeWhile_append)

lemma inside_siblings:
  assumes "wf_name n" "wf_name m" "inside (path_join q n) p" "inside (path_join q m) p"
  shows "n = m"
proof -
  from inside_child_form[OF assms(1,3)] obtain r where
    r: "p = dir_prefix q @ n @ r" "r = [] \<or> hd r = CHR ''/''" by blast
  from inside_child_form[OF assms(2,4)] obtain r' where
    r': "p = dir_prefix q @ m @ r'" "r' = [] \<or> hd r' = CHR ''/''" by blast
  from r(1) r'(1) have "n @ r = m @ r'" by simp
  then have "takeWhile (\<lambda>c. c \<noteq> CHR ''/'') (n @ r) = takeWhile (\<lambda>c. c \<noteq> CHR ''/'') (m @ r')"
    by simp
  with takeWhile_name[OF assms(1) r(2)] takeWhile_name[OF assms(2) r'(2)] show ?thesis by simp
qed

lemma inside_child_longer:
  assumes "wf_name n" "inside (path_join q n) p"
  shows "length q < length p"
proof -
  from inside_child_form[OF assms] obtain r where "p = dir_prefix q @ n @ r" by blast
  moreover have "length q \<le> length (dir_prefix q)" using dir_prefix_cases[of q] by auto
  moreover have "n \<noteq> []" using assms(1) by (simp add: wf_name_def)
  ultimately show ?thesis by (cases n) auto
qed

lemma not_inside_child: "wf_name n \<Longrightarrow> \<not> inside (path_join q n) q"
  using inside_child_longer by blast

lemma inside_trans:
  assumes "inside a b" "inside b c"
  shows "inside a c"
proof -
  have "startswith (dir_prefix b) b" using dir_prefix_cases[of b] by (auto simp: startswith_iff)
  with assms show ?thesis
    by (auto simp: inside_def startswith_iff)
qed

section \<open>The objects of a well-formed tree have different paths\<close>

lemma postorder_append:
  "postorder (xs @ ys) \<longleftrightarrow>
     postorder xs \<and> postorder ys
     \<and> (\<forall>y \<in> set xs. \<forall>n \<in> set (dirs_of y). path_join (fst y) n \<notin> fst ` set ys)"
  by (induction xs) auto

lemma nodes_inside:
  "wf_fs d \<Longrightarrow> pk \<in> set (tree_nodes q d) \<Longrightarrow> inside q (fst pk)"
  "wf_subs subs \<Longrightarrow> \<forall>n \<in> set (map fst subs). wf_name n \<Longrightarrow> pk \<in> set (sub_nodes q subs) \<Longrightarrow>
     \<exists>n \<in> set (map fst subs). inside (path_join q n) (fst pk)"
proof (induction q d and q subs arbitrary: pk and pk rule: tree_nodes_sub_nodes.induct)
  case (1 q e)
  then show ?case by (simp add: inside_refl)
next
  case (2 q files subs)
  from "2.prems" have wn: "\<forall>n \<in> set (map fst files @ map fst subs). wf_name n"
    and ws: "wf_subs subs" by simp_all
  from "2.prems"(2) consider
    (isfile) f where "f \<in> set files" "pk = (path_join q (fst f), FileNode)"
    | (sub) "pk \<in> set (sub_nodes q subs)"
    | (self) "pk = (q, ListedDir)" by auto
  then show ?case
  proof cases
    case isfile
    with wn have "wf_name (fst f)" by auto
    from inside_child_parent[OF this inside_refl] isfile show ?thesis by simp
  next
    case sub
    from "2.IH"[OF ws _ sub] wn obtain n where n: "n \<in> set (map fst subs)" "inside (path_join q n) (fst pk)"
      by auto
    with wn have "wf_name n" by auto
    from inside_child_parent[OF this n(2)] show ?thesis .
  next
    case self
    then show ?thesis by (simp add: inside_refl)
  qed
next
  case (3 q)
  then show ?case by simp
next
  case (4 q n is_link d rest)
  from "4.prems" have wn: "wf_name n" "\<forall>m \<in> set (map fst rest). wf_name m"
    and ws: "wf_subs rest" and wd: "is_link \<or> wf_fs d" by simp_all
  from "4.prems"(3) consider
    (here) "pk \<in> set (if is_link then [(path_join q n, LinkDir)] else tree_nodes (path_join q n) d)"
    | (there) "pk \<in> set (sub_nodes q rest)" by auto
  then show ?case
  proof cases
    case here
    have "inside (path_join q n) (fst pk)"
    proof (cases is_link)
      case True
      with here show ?thesis by (simp add: inside_refl)
    next
      case False
      with here wd "4.IH"(1)[OF False] show ?thesis by simp
    qed
    then show ?thesis by auto
  next
    case there
    from "4.IH"(2)[OF ws wn(2) there] show ?thesis by auto
  qed
qed

lemma path_join_inj: "wf_name n \<Longrightarrow> wf_name m \<Longrightarrow> path_join q n = path_join q m \<Longrightarrow> n = m"
  by (simp add: path_join_name)

lemma here_nodes_inside:
  assumes "is_link \<or> wf_fs d"
    and "pk \<in> set (if is_link then [(path_join q n, LinkDir)] else tree_nodes (path_join q n) d)"
  shows "inside (path_join q n) (fst pk)"
proof (cases is_link)
  case True
  with assms(2) show ?thesis by (simp add: inside_refl)
next
  case False
  with assms nodes_inside(1)[of d pk "path_join q n"] show ?thesis by simp
qed

lemma nodes_distinct:
  "wf_fs d \<Longrightarrow> distinct (map fst (tree_nodes q d))"
  "wf_subs subs \<Longrightarrow> \<forall>n \<in> set (map fst subs). wf_name n \<Longrightarrow> distinct (map fst subs) \<Longrightarrow>
     distinct (map fst (sub_nodes q subs))"
proof (induction q d and q subs rule: tree_nodes_sub_nodes.induct)
  case (1 q e)
  then show ?case by simp
next
  case (2 q files subs)
  from "2.prems" have wn: "\<forall>n \<in> set (map fst files @ map fst subs). wf_name n"
    and ws: "wf_subs subs" and dn: "distinct (map fst files @ map fst subs)" by simp_all
  from wn have wnf: "\<forall>f \<in> set files. wf_name (fst f)" and wns: "\<forall>n \<in> set (map fst subs). wf_name n"
    by auto
  have d1: "distinct (map (\<lambda>f. path_join q (fst f)) files)"
  proof -
    have "inj_on (path_join q) (set (map fst files))"
      using wnf by (auto simp: inj_on_def dest: path_join_inj)
    moreover from dn have "distinct (map fst files)" by simp
    ultimately have "distinct (map (path_join q) (map fst files))"
      unfolding distinct_map[of "path_join q"] by blast
    then show ?thesis by (simp add: comp_def)
  qed
  have d2: "distinct (map fst (sub_nodes q subs))"
    using "2.IH"[OF ws wns] dn by simp
  have d3: "path_join q (fst f) \<noteq> fst pk" if f: "f \<in> set files" and pk: "pk \<in> set (sub_nodes q subs)"
    for f pk
  proof
    assume eq: "path_join q (fst f) = fst pk"
    from nodes_inside(2)[OF ws wns pk] obtain n where
      n: "n \<in> set (map fst subs)" "inside (path_join q n) (fst pk)" by blast
    from f wnf have wf: "wf_name (fst f)" by blast
    from n wns have wn': "wf_name n" by blast
    have "inside (path_join q (fst f)) (fst pk)" by (simp add: eq inside_refl)
    from inside_siblings[OF wf wn' this n(2)] have "fst f = n" .
    with f n(1) dn show False by auto
  qed
  have d4: "q \<noteq> path_join q (fst f)" if "f \<in> set files" for f
    using that wnf not_inside_child[of "fst f" q] inside_refl[of "path_join q (fst f)"] by metis
  have d5: "q \<noteq> fst pk" if pk: "pk \<in> set (sub_nodes q subs)" for pk
  proof -
    from nodes_inside(2)[OF ws wns pk] obtain n where
      n: "n \<in> set (map fst subs)" "inside (path_join q n) (fst pk)" by blast
    with wns not_inside_child[of n q] show ?thesis by auto
  qed
  from d3 have e3: "set (map (\<lambda>f. path_join q (fst f)) files) \<inter> set (map fst (sub_nodes q subs)) = {}"
    by auto
  from d4 have e4: "q \<notin> set (map (\<lambda>f. path_join q (fst f)) files)" by auto
  from d5 have e5: "q \<notin> set (map fst (sub_nodes q subs))" by auto
  have "distinct (map (\<lambda>f. path_join q (fst f)) files @ map fst (sub_nodes q subs) @ [q])"
    using d1 d2 e3 e4 e5 by (simp only: distinct_append) simp
  then show ?case by (simp add: comp_def del: distinct_append)
next
  case (3 q)
  then show ?case by simp
next
  case (4 q n is_link d rest)
  from "4.prems" have wn: "wf_name n" "\<forall>m \<in> set (map fst rest). wf_name m"
    and ws: "wf_subs rest" and wd: "is_link \<or> wf_fs d"
    and dn: "n \<notin> set (map fst rest)" "distinct (map fst rest)" by simp_all
  let ?here = "if is_link then [(path_join q n, LinkDir)] else tree_nodes (path_join q n) d"
  have d1: "distinct (map fst ?here)"
    using wd "4.IH"(1) by (cases is_link) simp_all
  have d2: "distinct (map fst (sub_nodes q rest))"
    using "4.IH"(2)[OF ws wn(2) dn(2)] .
  have d3: "fst a \<noteq> fst b" if a: "a \<in> set ?here" and b: "b \<in> set (sub_nodes q rest)" for a b
  proof
    assume eq: "fst a = fst b"
    from here_nodes_inside[OF wd a] have ia: "inside (path_join q n) (fst a)" .
    from nodes_inside(2)[OF ws wn(2) b] obtain m where
      m: "m \<in> set (map fst rest)" "inside (path_join q m) (fst b)" by blast
    from m wn(2) have "wf_name m" by blast
    from inside_siblings[OF wn(1) this ia] m(2) eq have "n = m" by simp
    with m(1) dn(1) show False by simp
  qed
  from d3 have e3: "set (map fst ?here) \<inter> set (map fst (sub_nodes q rest)) = {}"
    by (simp only: set_map) blast
  have "distinct (map fst ?here @ map fst (sub_nodes q rest))"
    using d1 d2 e3 by (simp only: distinct_append simp_thms)
  then show ?case by (simp del: distinct_append)
qed

section \<open>What os.walk yields for a well-formed tree\<close>

lemma walk_nodes:
  "y \<in> set (os_walk q d) \<Longrightarrow> (fst y, ListedDir) \<in> set (tree_nodes q d)"
  "y \<in> set (walk_subdirs q subs) \<Longrightarrow> (fst y, ListedDir) \<in> set (sub_nodes q subs)"
  by (induction q d and q subs arbitrary: y and y rule: os_walk_walk_subdirs.induct)
     (auto split: if_splits)

lemma walk_file_nodes:
  "y \<in> set (os_walk q d) \<Longrightarrow> f \<in> set (files_of y) \<Longrightarrow>
     (path_join (fst y) (fst f), FileNode) \<in> set (tree_nodes q d)"
  "y \<in> set (walk_subdirs q subs) \<Longrightarrow> f \<in> set (files_of y) \<Longrightarrow>
     (path_join (fst y) (fst f), FileNode) \<in> set (sub_nodes q subs)"
  by (induction q d and q subs arbitrary: y and y rule: os_walk_walk_subdirs.induct)
     (auto simp: files_of_def split: if_splits)

lemma walk_dirs_wf:
  "wf_fs d \<Longrightarrow> y \<in> set (os_walk q d) \<Longrightarrow> n \<in> set (dirs_of y) \<Longrightarrow> wf_name n"
  "wf_subs subs \<Longrightarrow> y \<in> set (walk_subdirs q subs) \<Longrightarrow> n \<in> set (dirs_of y) \<Longrightarrow> wf_name n"
  by (induction q d and q subs arbitrary: y and y rule: os_walk_walk_subdirs.induct)
     (auto simp: dirs_of_def split: if_splits)

lemma walk_roots_listed:
  "map fst (os_walk q d) = map fst (filter (\<lambda>pk. snd pk = ListedDir) (tree_nodes q d))"
  "map fst (walk_subdirs q subs) = map fst (filter (\<lambda>pk. snd pk = ListedDir) (sub_nodes q subs))"
  by (induction q d and q subs rule: os_walk_walk_subdirs.induct)
     (simp_all add: filter_map comp_def)

lemma walk_roots_distinct: "wf_fs d \<Longrightarrow> distinct (map fst (os_walk q d))"
  unfolding walk_roots_listed using nodes_distinct(1)[of d q]
  by (rule distinct_map_filter)

lemma walk_roots_inside: "wf_fs d \<Longrightarrow> y \<in> set (os_walk q d) \<Longrightarrow> inside q (fst y)"
  using nodes_inside(1)[of d "(fst y, ListedDir)" q] walk_nodes(1)[of y q d] by simp

lemma subwalk_roots_inside:
  "wf_subs subs \<Longrightarrow> \<forall>n \<in> set (map fst subs). wf_name n \<Longrightarrow> y \<in> set (walk_subdirs q subs) \<Longrightarrow>
     \<exists>n \<in> set (map fst subs). inside (path_join q n) (fst y)"
  using nodes_inside(2)[of subs "(fst y, ListedDir)" q] walk_nodes(2)[of y q subs] by simp

lemma child_inside: "wf_name n \<Longrightarrow> inside r (path_join r n)"
  using inside_child_parent[OF _ inside_refl] .

lemma path_join_neq: "wf_name n \<Longrightarrow> path_join q n \<noteq> q"
  using not_inside_child[of n q] inside_refl[of q] by auto

lemma walk_postorder:
  "wf_fs d \<Longrightarrow> postorder (os_walk q d)"
  "wf_subs subs \<Longrightarrow> \<forall>n \<in> set (map fst subs). wf_name n \<Longrightarrow> distinct (map fst subs) \<Longrightarrow>
     postorder (walk_subdirs q subs)"
proof (induction q d and q subs rule: os_walk_walk_subdirs.induct)
  case (1 tp e)
  then show ?case by simp
next
  case (2 tp files subs)
  from "2.prems" have wn: "\<forall>n \<in> set (map fst subs). wf_name n"
    and ws: "wf_subs subs" and dn: "distinct (map fst subs)" by simp_all
  have a: "postorder (walk_subdirs tp subs)" using "2.IH"[OF ws wn dn] .
  have b: "postorder [(tp, map fst subs, files)]"
    using wn by (auto simp: dirs_of_def path_join_neq)
  have c: "path_join (fst y) n \<noteq> tp"
    if y: "y \<in> set (walk_subdirs tp subs)" and n: "n \<in> set (dirs_of y)" for y n
  proof -
    from subwalk_roots_inside[OF ws wn y] obtain m where
      m: "m \<in> set (map fst subs)" "inside (path_join tp m) (fst y)" by blast
    from walk_dirs_wf(2)[OF ws y n] have "wf_name n" .
    from inside_trans[OF m(2) child_inside[OF this]]
    have "inside (path_join tp m) (path_join (fst y) n)" .
    with m(1) wn not_inside_child[of m tp] show ?thesis by auto
  qed
  from a b c show ?case by (simp add: postorder_append)
next
  case (3 tp)
  then show ?case by simp
next
  case (4 tp n is_link d rest)
  from "4.prems" have wn: "wf_name n" "\<forall>m \<in> set (map fst rest). wf_name m"
    and ws: "wf_subs rest" and wd: "is_link \<or> wf_fs d"
    and dn: "n \<notin> set (map fst rest)" "distinct (map fst rest)" by simp_all
  let ?here = "if is_link then [] else os_walk (path_join tp n) d"
  have a: "postorder ?here" using wd "4.IH"(1) by (cases is_link) simp_all
  have b: "postorder (walk_subdirs tp rest)" using "4.IH"(2)[OF ws wn(2) dn(2)] .
  have c: "path_join (fst y) k \<notin> fst ` set (walk_subdirs tp rest)"
    if y: "y \<in> set ?here" and k: "k \<in> set (dirs_of y)" for y k
  proof
    assume "path_join (fst y) k \<in> fst ` set (walk_subdirs tp rest)"
    then obtain z where z: "z \<in> set (walk_subdirs tp rest)" "fst z = path_join (fst y) k" by auto
    from y have nl: "\<not> is_link" and y': "y \<in> set (os_walk (path_join tp n) d)"
      by (auto split: if_splits)
    from nl wd have wfd: "wf_fs d" by simp
    from walk_roots_inside[OF wfd y'] have iy: "inside (path_join tp n) (fst y)" .
    from walk_dirs_wf(1)[OF wfd y' k] have "wf_name k" .
    from inside_trans[OF iy child_inside[OF this]]
    have i1: "inside (path_join tp n) (path_join (fst y) k)" .
    from subwalk_roots_inside[OF ws wn(2) z(1)] obtain m where
      m: "m \<in> set (map fst rest)" "inside (path_join tp m) (fst z)" by blast
    from m wn(2) have "wf_name m" by blast
    from inside_siblings[OF wn(1) this i1] m(2) z(2) have "n = m" by simp
    with m(1) dn(1) show False by simp
  qed
  have "postorder (?here @ walk_subdirs tp rest)"
    unfolding postorder_append using a b c by blast
  then show ?case by simp
qed

section \<open>The dictionary of a walk\<close>

lemma child_entries_Nil: "child_entries ds rt [] = []"
  by (simp add: child_entries_def List.map_filter_simps)

lemma child_entries_Cons:
  "child_entries ds rt (n # dirs) =
     (case ds (path_join rt n) of None \<Rightarrow> child_entries ds rt dirs
      | Some c \<Rightarrow> c # child_entries ds rt dirs)"
  by (simp add: child_entries_def List.map_filter_simps split: option.splits)

lemma add_subdirs_eq:
  "add_subdirs rt ds dirs de =
     de\<lparr> e_size := e_size de + sum_list (map e_size (child_entries ds rt dirs)),
         e_file_count := e_file_count de + sum_list (map e_file_count (child_entries ds rt dirs)),
         e_dir_count := e_dir_count de
                        + sum_list (map (\<lambda>c. e_dir_count c + 1) (child_entries ds rt dirs)) \<rparr>"
proof (induction dirs arbitrary: de)
  case Nil
  then show ?case by (simp add: child_entries_Nil)
next
  case (Cons n dirs)
  show ?case
    by (cases "ds (path_join rt n)")
       (simp_all add: Cons.IH child_entries_Cons algebra_simps)
qed

lemma make_entry_fields:
  "e_path (make_entry mp ds (rt, dirs, files)) = rt"
  "e_size (make_entry mp ds (rt, dirs, files)) =
     sum_list (ok_sizes files) + sum_list (map e_size (child_entries ds rt dirs))"
  "e_file_count (make_entry mp ds (rt, dirs, files)) =
     int (length (ok_sizes files)) + sum_list (map e_file_count (child_entries ds rt dirs))"
  "e_dir_count (make_entry mp ds (rt, dirs, files)) =
     sum_list (map (\<lambda>c. e_dir_count c + 1) (child_entries ds rt dirs))"
  "e_depth (make_entry mp ds (rt, dirs, files)) = get_depth rt mp"
  "e_parent_path (make_entry mp ds (rt, dirs, files)) = (if rt \<noteq> mp then Some (dirname rt) else None)"
  "e_is_dir (make_entry mp ds (rt, dirs, files)) = 1"
  by (simp_all add: make_entry_def add_subdirs_eq new_dir_entry_def)

lemma make_entry_path: "e_path (make_entry mp ds y) = fst y"
  by (cases y) (simp add: make_entry_fields)

lemma child_entries_cong:
  "\<forall>n \<in> set dirs. ds (path_join rt n) = ds' (path_join rt n) \<Longrightarrow>
   child_entries ds rt dirs = child_entries ds' rt dirs"
  by (induction dirs) (simp_all add: child_entries_Nil child_entries_Cons split: option.splits)

lemma make_entry_cong:
  assumes "\<And>n. n \<in> set (dirs_of y) \<Longrightarrow> ds (path_join (fst y) n) = ds' (path_join (fst y) n)"
  shows "make_entry mp ds y = make_entry mp ds' y"
proof -
  obtain rt dirs files where y: "y = (rt, dirs, files)" by (cases y)
  from assms have "\<forall>n \<in> set dirs. ds (path_join rt n) = ds' (path_join rt n)"
    by (simp add: y dirs_of_def)
  then have "child_entries ds rt dirs = child_entries ds' rt dirs"
    by (rule child_entries_cong)
  then show ?thesis by (simp add: y make_entry_def add_subdirs_eq)
qed

lemma kept_Nil: "kept self mp [] = []"
  by (simp add: kept_def)

lemma walk_entries_paths:
  "map e_path (walk_entries self mp ds ys) = map fst (kept self mp ys)"
  by (induction ys arbitrary: ds) (simp_all add: kept_Nil kept_Cons make_entry_path)

lemma walk_dir_sizes_frame:
  "p \<notin> fst ` set ys \<Longrightarrow> walk_dir_sizes self mp ds ys p = ds p"
  by (induction ys arbitrary: ds) auto

lemma kept_subset: "set (kept self mp ys) \<subseteq> set ys"
  by (auto simp: kept_def)

lemma walk_dir_sizes_lookup:
  "distinct (map fst ys) \<Longrightarrow>
   walk_dir_sizes self mp ds ys p =
     (case entry_at (walk_entries self mp ds ys) p of Some e \<Rightarrow> Some e | None \<Rightarrow> ds p)"
proof (induction ys arbitrary: ds)
  case Nil
  then show ?case by (simp add: entry_at_def)
next
  case (Cons y ys)
  from Cons.prems have d: "distinct (map fst ys)" and ny: "fst y \<notin> fst ` set ys" by auto
  show ?case
  proof (cases "excluded self mp (fst y)")
    case True
    then show ?thesis using Cons.IH[OF d] by simp
  next
    case False
    let ?e = "make_entry mp ds y"
    let ?ds1 = "ds(fst y \<mapsto> ?e)"
    let ?E' = "walk_entries self mp ?ds1 ys"
    have ih: "walk_dir_sizes self mp ?ds1 ys p =
        (case entry_at ?E' p of Some e \<Rightarrow> Some e | None \<Rightarrow> ?ds1 p)"
      using Cons.IH[OF d] .
    show ?thesis
    proof (cases "p = fst y")
      case True
      have "set (map e_path ?E') \<subseteq> fst ` set ys"
        unfolding walk_entries_paths using kept_subset[of self mp ys] by auto
      then have "\<forall>e \<in> set ?E'. e_path e \<in> fst ` set ys" by (simp add: image_subset_iff)
      with ny True have "\<forall>e \<in> set ?E'. e_path e \<noteq> p" by metis
      then have "entry_at ?E' p = None" by (simp add: entry_at_def find_None_iff)
      with ih True False show ?thesis by (simp add: entry_at_def make_entry_path)
    next
      case np: False
      with ih False show ?thesis
        by (simp add: entry_at_def make_entry_path split: option.splits)
    qed
  qed
qed

lemma walk_dir_sizes_empty:
  "distinct (map fst ys) \<Longrightarrow>
   walk_dir_sizes self mp Map.empty ys = entry_at (walk_entries self mp Map.empty ys)"
  by (rule ext) (simp add: walk_dir_sizes_lookup split: option.splits)

lemma walk_entries_final:
  "postorder ys \<Longrightarrow> y \<in> set (kept self mp ys) \<Longrightarrow>
   make_entry mp (walk_dir_sizes self mp ds ys) y \<in> set (walk_entries self mp ds ys)"
proof (induction ys arbitrary: ds)
  case Nil
  then show ?case by (simp add: kept_def)
next
  case (Cons y0 ys)
  from Cons.prems(1) have po: "postorder ys"
    and ch: "\<forall>n \<in> set (dirs_of y0). path_join (fst y0) n \<notin> fst ` set (y0 # ys)" by simp_all
  show ?case
  proof (cases "excluded self mp (fst y0)")
    case True
    with Cons.prems(2) have "y \<in> set (kept self mp ys)" by (simp add: kept_Cons)
    from Cons.IH[OF po this] True show ?thesis by simp
  next
    case False
    let ?e = "make_entry mp ds y0"
    let ?ds1 = "ds(fst y0 \<mapsto> ?e)"
    from Cons.prems(2) False consider "y = y0" | "y \<in> set (kept self mp ys)"
      by (auto simp: kept_Cons)
    then show ?thesis
    proof cases
      case 1
      have "make_entry mp (walk_dir_sizes self mp ?ds1 ys) y0 = make_entry mp ds y0"
      proof (rule make_entry_cong)
        fix n assume "n \<in> set (dirs_of y0)"
        with ch have a: "path_join (fst y0) n \<notin> fst ` set ys" and b: "path_join (fst y0) n \<noteq> fst y0"
          by auto
        from walk_dir_sizes_frame[OF a] b
        show "walk_dir_sizes self mp ?ds1 ys (path_join (fst y0) n) = ds (path_join (fst y0) n)"
          by simp
      qed
      with 1 False show ?thesis by simp
    next
      case 2
      from Cons.IH[OF po 2] False show ?thesis by simp
    qed
  qed
qed

section \<open>Depth and exclusion below a directory\<close>

lemma relpath_components:
  "relpath p start =
     (let i = length (commonprefix (components start) (components p));
          rel_list = replicate (length (components start) - i) ''..'' @ drop i (components p)
      in if rel_list = [] then ''.'' else join_all rel_list)"
  by (simp add: relpath_def components_def Let_def)

lemma split_sep_nonempty: "split_sep a \<noteq> []"
  by (induction a) (auto split: list.splits)

lemma split_sep_append: "split_sep (a @ CHR ''/'' # b) = split_sep a @ split_sep b"
proof (induction a)
  case Nil
  then show ?case by simp
next
  case (Cons c a)
  obtain w ws where w: "split_sep a = w # ws"
    using split_sep_nonempty[of a] by (cases "split_sep a") auto
  with Cons show ?case by simp
qed

lemma split_sep_name: "CHR ''/'' \<notin> set n \<Longrightarrow> split_sep n = [n]"
  by (induction n) auto

lemma components_join:
  assumes "wf_name n"
  shows "components (path_join q n) = components q @ [n]"
proof -
  from assms have n: "n \<noteq> []" "CHR ''/'' \<notin> set n" by (simp_all add: wf_name_def)
  have pj: "path_join q n = dir_prefix q @ n" by (rule path_join_name[OF assms])
  consider (e) "q = []" | (s) "q \<noteq> []" "last q = CHR ''/''" | (o) "q \<noteq> []" "last q \<noteq> CHR ''/''"
    by blast
  then show ?thesis
  proof cases
    case e
    then have "dir_prefix q = []" by (simp add: dir_prefix_def path_join_def startswith_def)
    with pj have "path_join q n = n" by simp
    with e n show ?thesis by (simp add: components_def split_sep_name)
  next
    case s
    then have dp: "dir_prefix q = q" by (simp add: dir_prefix_def path_join_def startswith_def)
    from s obtain q0 where q0: "q = q0 @ ''/''" by (metis append_butlast_last_id)
    have "split_sep (q @ n) = split_sep q0 @ [n]"
      using split_sep_append[of q0 n] n by (simp add: q0 split_sep_name)
    moreover have "split_sep q = split_sep q0 @ [[]]"
      using split_sep_append[of q0 "[]"] by (simp add: q0)
    ultimately show ?thesis using n by (simp add: pj dp components_def)
  next
    case o
    then have dp: "dir_prefix q = q @ ''/''" by (simp add: dir_prefix_def path_join_def startswith_def)
    have "split_sep (q @ ''/'' @ n) = split_sep q @ [n]"
      using split_sep_append[of q n] n by (simp add: split_sep_name)
    then show ?thesis using n by (simp add: pj dp components_def)
  qed
qed

lemma commonprefix_append: "commonprefix xs (xs @ ys) = xs"
  by (induction xs) simp_all

lemma foldl_join_split:
  "a \<noteq> [] \<Longrightarrow> last a \<noteq> CHR ''/'' \<Longrightarrow> \<forall>n \<in> set ns. wf_name n \<Longrightarrow>
   split_sep (foldl path_join a ns) = split_sep a @ ns"
proof (induction ns arbitrary: a)
  case Nil
  then show ?case by simp
next
  case (Cons n ns)
  from Cons.prems have wn: "wf_name n" by simp
  then have n: "n \<noteq> []" "CHR ''/'' \<notin> set n" by (simp_all add: wf_name_def)
  from Cons.prems(1,2) have dp: "dir_prefix a = a @ ''/''"
    by (simp add: dir_prefix_def path_join_def startswith_def)
  have pj: "path_join a n = a @ ''/'' @ n" by (simp add: path_join_name[OF wn] dp)
  from n have "last n \<noteq> CHR ''/''" by (auto dest: last_in_set)
  with n have l: "path_join a n \<noteq> []" "last (path_join a n) \<noteq> CHR ''/''" by (simp_all add: pj)
  have "split_sep (path_join a n) = split_sep a @ [n]"
    using split_sep_append[of a n] n by (simp add: pj split_sep_name)
  with Cons.IH[OF l] Cons.prems(3) show ?case by simp
qed

lemma join_all_split:
  assumes "ns \<noteq> []" "\<forall>n \<in> set ns. wf_name n"
  shows "split_sep (join_all ns) = ns"
proof -
  from assms(1) obtain x xs where ns: "ns = x # xs" by (cases ns) auto
  with assms(2) have "x \<noteq> []" "CHR ''/'' \<notin> set x" by (simp_all add: wf_name_def)
  then have "last x \<noteq> CHR ''/''" "split_sep x = [x]" by (auto dest: last_in_set simp: split_sep_name)
  with foldl_join_split[of x xs] \<open>x \<noteq> []\<close> assms(2) show ?thesis
    by (simp add: ns join_all_def)
qed

text \<open>The depth of a directory that lies \<open>ns\<close> below the mount point.\<close>

lemma get_depth_below:
  assumes "components p = components mp @ ns" "\<forall>n \<in> set ns. wf_name n"
  shows "get_depth p mp = (if p = mp then 0 else if ns = [] then 1 else length ns)"
proof (cases "p = mp")
  case True
  then show ?thesis by (simp add: get_depth_def)
next
  case False
  show ?thesis
  proof (cases "ns = []")
    case True
    then show ?thesis
      using False assms(1) by (simp add: get_depth_def relpath_components commonprefix_append[of _ "[]", simplified])
  next
    case nn: False
    have "relpath p mp = join_all ns"
      using nn by (simp add: relpath_components assms(1) commonprefix_append Let_def)
    with join_all_split[OF nn assms(2)] False nn show ?thesis
      by (simp add: get_depth_def)
  qed
qed

lemma below_root: "below mp [] mp"
  by (simp add: below_def)

lemma below_child: "below mp ns q \<Longrightarrow> wf_name n \<Longrightarrow> below mp (ns @ [n]) (path_join q n)"
  by (simp add: below_def components_join)

lemma walk_roots_below:
  "wf_fs d \<Longrightarrow> below mp ns q \<Longrightarrow> y \<in> set (os_walk q d) \<Longrightarrow> \<exists>ms. below mp (ns @ ms) (fst y)"
  "wf_subs subs \<Longrightarrow> \<forall>n \<in> set (map fst subs). wf_name n \<Longrightarrow> below mp ns q \<Longrightarrow>
     y \<in> set (walk_subdirs q subs) \<Longrightarrow> \<exists>ms. below mp (ns @ ms) (fst y)"
proof (induction q d and q subs arbitrary: ns y and ns y rule: os_walk_walk_subdirs.induct)
  case (1 tp e)
  then show ?case by simp
next
  case (2 tp files subs)
  from "2.prems"(1) have wn: "\<forall>n \<in> set (map fst subs). wf_name n" and ws: "wf_subs subs"
    by simp_all
  from "2.prems"(3) consider "y \<in> set (walk_subdirs tp subs)" | "fst y = tp" by auto
  then show ?case
  proof cases
    case 1
    from "2.IH"[OF ws wn "2.prems"(2) 1] show ?thesis .
  next
    case 2
    with "2.prems"(2) show ?thesis by (intro exI[of _ "[]"]) simp
  qed
next
  case (3 tp)
  then show ?case by simp
next
  case (4 tp n is_link d rest)
  from "4.prems" have wn: "wf_name n" "\<forall>m \<in> set (map fst rest). wf_name m"
    and ws: "wf_subs rest" and wd: "is_link \<or> wf_fs d" by simp_all
  from "4.prems"(4) consider
    (here) "\<not> is_link" "y \<in> set (os_walk (path_join tp n) d)"
    | (there) "y \<in> set (walk_subdirs tp rest)" by (auto split: if_splits)
  then show ?case
  proof cases
    case here
    with wd have wfd: "wf_fs d" by simp
    from "4.IH"(1)[OF here(1) wfd below_child[OF "4.prems"(3) wn(1)] here(2)]
    obtain ms where "below mp ((ns @ [n]) @ ms) (fst y)" by blast
    then show ?thesis by (intro exI[of _ "n # ms"]) simp
  next
    case there
    from "4.IH"(2)[OF ws wn(2) "4.prems"(3) there] show ?thesis .
  qed
qed

lemma should_skip_inside:
  assumes "should_skip self q" "dir_prefix q = q @ ''/''" "inside q p"
  shows "should_skip self p"
proof (cases "p = q")
  case True
  with assms(1) show ?thesis by simp
next
  case False
  with assms(2,3) obtain r where p: "p = (q @ ''/'') @ r"
    by (auto simp: inside_def startswith_iff)
  from assms(1) consider "q \<in> skip_paths self"
    | skip where "skip \<in> skip_paths self" "startswith q (skip @ ''/'')"
    by (auto simp: should_skip_def split: if_splits)
  then show ?thesis
  proof cases
    case 1
    then have "\<exists>skip \<in> skip_paths self. startswith p (skip @ ''/'')"
      using p by (auto simp: startswith_iff)
    then show ?thesis by (simp add: should_skip_def)
  next
    case 2
    from 2(2) obtain r' where "q = (skip @ ''/'') @ r'" unfolding startswith_iff by blast
    with p have "p = (skip @ ''/'') @ (r' @ ''/'' @ r)" by simp
    then have "startswith p (skip @ ''/'')" unfolding startswith_iff by blast
    with 2(1) show ?thesis by (auto simp: should_skip_def)
  qed
qed

lemma below_not_root: "below mp ns q \<Longrightarrow> ns \<noteq> [] \<Longrightarrow> q \<noteq> mp"
  by (auto simp: below_def)

lemma get_depth_node: "below mp ns q \<Longrightarrow> ns \<noteq> [] \<Longrightarrow> get_depth q mp = length ns"
  using get_depth_below[of q mp ns] below_not_root[of mp ns q] by (simp add: below_def)

lemma excluded_inside:
  assumes wf: "wf_fs d" and b: "below mp ns q" and nn: "ns \<noteq> []"
    and dp: "dir_prefix q = q @ ''/''" and ex: "excluded self mp q"
    and y: "y \<in> set (os_walk q d)"
  shows "excluded self mp (fst y)"
proof (cases "should_skip self q")
  case True
  from should_skip_inside[OF True dp walk_roots_inside[OF wf y]] show ?thesis
    by (simp add: excluded_def)
next
  case False
  with ex have md: "max_depth self > 0" "int (get_depth q mp) > max_depth self"
    by (simp_all add: excluded_def)
  from walk_roots_below(1)[OF wf b y] obtain ms where ms: "below mp (ns @ ms) (fst y)" by blast
  from get_depth_node[OF ms] nn have "get_depth (fst y) mp = length ns + length ms" by simp
  with get_depth_node[OF b nn] md show ?thesis by (simp add: excluded_def)
qed

lemma all_excluded:
  "\<forall>y \<in> set ys. excluded self mp (fst y) \<Longrightarrow>
   kept self mp ys = [] \<and> walk_dir_sizes self mp ds ys = ds \<and> walk_entries self mp ds ys = []"
  by (induction ys) (simp_all add: kept_Nil kept_Cons)

section \<open>The aggregates of a sub-tree\<close>

lemma agrees_Nil: "agrees [] []"
  by (simp add: agrees_def walk_total_size_def walk_total_files_def)

lemma agrees_append: "agrees cs ks \<Longrightarrow> agrees cs' ks' \<Longrightarrow> agrees (cs @ cs') (ks @ ks')"
  by (simp add: agrees_def walk_total_size_def walk_total_files_def)

lemma walk_dir_sizes_append:
  "walk_dir_sizes self mp ds (xs @ ys) = walk_dir_sizes self mp (walk_dir_sizes self mp ds xs) ys"
  by (induction xs arbitrary: ds) simp_all

lemma kept_append: "kept self mp (xs @ ys) = kept self mp xs @ kept self mp ys"
  by (simp add: kept_def)

lemma clear_child: "clear ds q \<Longrightarrow> wf_name n \<Longrightarrow> clear ds (path_join q n)"
  using inside_child_parent by (auto simp: clear_def)

lemma clear_after_sibling:
  assumes cl: "clear ds (path_join q m)" and wn: "wf_name n" "wf_name m" and ne: "n \<noteq> m"
    and ins: "\<forall>y \<in> set ys. inside (path_join q n) (fst y)"
  shows "clear (walk_dir_sizes self mp ds ys) (path_join q m)"
  unfolding clear_def
proof (intro allI impI)
  fix p assume p: "inside (path_join q m) p"
  have "p \<notin> fst ` set ys"
  proof
    assume "p \<in> fst ` set ys"
    with ins have "inside (path_join q n) p" by auto
    from inside_siblings[OF wn this p] ne show False by simp
  qed
  from walk_dir_sizes_frame[OF this] cl p show "walk_dir_sizes self mp ds ys p = None"
    by (simp add: clear_def)
qed

lemma subtree_totals:
  "wf_fs d \<Longrightarrow> below mp ns q \<Longrightarrow> (excluded self mp q \<longrightarrow> ns \<noteq> [] \<and> dir_prefix q = q @ ''/'') \<Longrightarrow>
   clear ds q \<Longrightarrow>
     (case walk_dir_sizes self mp ds (os_walk q d) q of
        None \<Rightarrow> kept self mp (os_walk q d) = []
      | Some e \<Rightarrow> agrees [e] (kept self mp (os_walk q d)))"
  "wf_subs subs \<Longrightarrow> \<forall>n \<in> set (map fst subs). wf_name n \<Longrightarrow> distinct (map fst subs) \<Longrightarrow>
   below mp ns q \<Longrightarrow> \<forall>n \<in> set (map fst subs). clear ds (path_join q n) \<Longrightarrow>
     agrees (child_entries (walk_dir_sizes self mp ds (walk_subdirs q subs)) q (map fst subs))
            (kept self mp (walk_subdirs q subs))"
proof (induction q d and q subs arbitrary: ds ns and ds ns rule: os_walk_walk_subdirs.induct)
  case (1 tp e)
  then show ?case by (simp add: clear_def inside_refl kept_Nil)
next
  case (2 tp files subs)
  from "2.prems"(1) have wn: "\<forall>n \<in> set (map fst subs). wf_name n" and ws: "wf_subs subs"
    and dn: "distinct (map fst subs)" by simp_all
  let ?yq = "(tp, map fst subs, files)"
  let ?sw = "walk_subdirs tp subs"
  show ?case
  proof (cases "excluded self mp tp")
    case True
    with "2.prems"(3) have nn: "ns \<noteq> []" and dp: "dir_prefix tp = tp @ ''/''" by simp_all
    have "\<forall>y \<in> set (os_walk tp (Dir files subs)). excluded self mp (fst y)"
      using excluded_inside[OF "2.prems"(1,2) nn dp True] by blast
    from all_excluded[OF this, of ds] "2.prems"(4) show ?thesis
      by (simp add: clear_def inside_refl)
  next
    case False
    let ?F = "walk_dir_sizes self mp ds ?sw"
    let ?e = "make_entry mp ?F ?yq"
    have cl: "\<forall>n \<in> set (map fst subs). clear ds (path_join tp n)"
      using clear_child[OF "2.prems"(4)] wn by blast
    from "2.IH"[OF ws wn dn "2.prems"(2) cl]
    have ih: "agrees (child_entries ?F tp (map fst subs)) (kept self mp ?sw)" .
    have F: "walk_dir_sizes self mp ds (os_walk tp (Dir files subs)) tp = Some ?e"
      using False by (simp add: walk_dir_sizes_append)
    have K: "kept self mp (os_walk tp (Dir files subs)) = kept self mp ?sw @ [?yq]"
      using False by (simp add: kept_append kept_Cons kept_Nil)
    have "agrees [?e] (kept self mp ?sw @ [?yq])"
      using ih
      by (simp add: agrees_def make_entry_fields walk_total_size_def walk_total_files_def
            files_of_def)
    with F K show ?thesis by simp
  qed
next
  case (3 tp)
  then show ?case by (simp add: child_entries_Nil kept_Nil agrees_Nil)
next
  case (4 tp n is_link d rest)
  from "4.prems" have wn: "wf_name n" "\<forall>m \<in> set (map fst rest). wf_name m"
    and ws: "wf_subs rest" and wd: "is_link \<or> wf_fs d"
    and dn: "n \<notin> set (map fst rest)" "distinct (map fst rest)"
    and b: "below mp ns tp"
    and cl: "clear ds (path_join tp n)" "\<forall>m \<in> set (map fst rest). clear ds (path_join tp m)"
    by simp_all
  let ?c = "path_join tp n"
  let ?here = "if is_link then [] else os_walk ?c d"
  let ?R = "walk_subdirs tp rest"
  let ?Fh = "walk_dir_sizes self mp ds ?here"
  let ?F = "walk_dir_sizes self mp ?Fh ?R"
  have W: "walk_subdirs tp ((n, is_link, d) # rest) = ?here @ ?R" by simp
  have hin: "\<forall>y \<in> set ?here. inside ?c (fst y)"
    using wd walk_roots_inside[of d _ ?c] by (cases is_link) auto
  \<comment> \<open>the later siblings do not touch the key of this child\<close>
  have "?c \<notin> fst ` set ?R"
  proof
    assume "?c \<in> fst ` set ?R"
    then obtain z where z: "z \<in> set ?R" "fst z = ?c" by auto
    from subwalk_roots_inside[OF ws wn(2) z(1)] obtain m where
      m: "m \<in> set (map fst rest)" "inside (path_join tp m) (fst z)" by blast
    from m wn(2) have "wf_name m" by blast
    from inside_siblings[OF wn(1) this inside_refl] m(2) z(2) have "n = m" by simp
    with m(1) dn(1) show False by simp
  qed
  from walk_dir_sizes_frame[OF this] have Fc: "?F ?c = ?Fh ?c" .
  \<comment> \<open>the rest of the children\<close>
  have clr: "\<forall>m \<in> set (map fst rest). clear ?Fh (path_join tp m)"
  proof
    fix m assume m: "m \<in> set (map fst rest)"
    with wn(2) dn(1) have "wf_name m" "n \<noteq> m" by auto
    from clear_after_sibling[OF _ wn(1) this hin] cl(2) m
    show "clear ?Fh (path_join tp m)" by blast
  qed
  from "4.IH"(2)[OF ws wn(2) dn(2) b clr]
  have ihr: "agrees (child_entries ?F tp (map fst rest)) (kept self mp ?R)" .
  \<comment> \<open>this child\<close>
  have ihc: "case ?Fh ?c of None \<Rightarrow> kept self mp ?here = []
             | Some e \<Rightarrow> agrees [e] (kept self mp ?here)"
  proof (cases is_link)
    case True
    with cl(1) show ?thesis by (simp add: clear_def inside_refl kept_Nil)
  next
    case False
    with wd have wfd: "wf_fs d" by simp
    have ex: "excluded self mp ?c \<longrightarrow> ns @ [n] \<noteq> [] \<and> dir_prefix ?c = ?c @ ''/''"
      by (simp add: dir_prefix_child[OF wn(1)])
    from "4.IH"(1)[OF False wfd below_child[OF b wn(1)] ex cl(1)] False show ?thesis by simp
  qed
  have "agrees (child_entries ?F tp (n # map fst rest)) (kept self mp ?here @ kept self mp ?R)"
  proof (cases "?Fh ?c")
    case None
    with ihc ihr Fc show ?thesis by (simp add: child_entries_Cons)
  next
    case (Some e)
    with ihc have "agrees [e] (kept self mp ?here)" by simp
    from agrees_append[OF this ihr] Some Fc show ?thesis by (simp add: child_entries_Cons)
  qed
  then show ?case
    unfolding W walk_dir_sizes_append kept_append by simp
qed

section \<open>Entries below an entry\<close>

lemma entries_below_append:
  "entries_below (xs @ ys) e = entries_below xs e @ entries_below ys e"
  by (simp add: entries_below_def)

lemma entries_below_none:
  "\<forall>c \<in> set es. \<not> inside (e_path e) (e_path c) \<Longrightarrow> entries_below es e = []"
  by (simp add: entries_below_def strictly_inside_def)

lemma entries_below_all:
  "\<forall>c \<in> set es. strictly_inside (e_path e) (e_path c) \<Longrightarrow> entries_below es e = es"
  by (simp add: entries_below_def)

lemma walk_entries_root:
  "e \<in> set (walk_entries self mp ds ys) \<Longrightarrow> \<exists>y \<in> set ys. e_path e = fst y"
proof -
  assume "e \<in> set (walk_entries self mp ds ys)"
  then have "e_path e \<in> set (map e_path (walk_entries self mp ds ys))" by simp
  then have "e_path e \<in> set (map fst (kept self mp ys))" by (simp only: walk_entries_paths)
  with kept_subset[of self mp ys] show ?thesis by auto
qed

lemma walk_entries_length:
  "length (walk_entries self mp ds ys) = length (kept self mp ys)"
  using arg_cong[OF walk_entries_paths[of self mp ds ys], of length] by simp

lemma not_inside_other_sibling:
  assumes "wf_name n" "wf_name m" "n \<noteq> m"
    and "inside (path_join q n) a" "inside (path_join q m) b"
  shows "\<not> inside a b"
proof
  assume "inside a b"
  from inside_trans[OF assms(4) this] have "inside (path_join q n) b" .
  from inside_siblings[OF assms(1,2) this assms(5)] assms(3) show False by simp
qed

lemma subtree_dir_counts:
  "wf_fs d \<Longrightarrow> below mp ns q \<Longrightarrow> clear ds q \<Longrightarrow>
   e \<in> set (walk_entries self mp ds (os_walk q d)) \<Longrightarrow>
     e_dir_count e = int (length (entries_below (walk_entries self mp ds (os_walk q d)) e))"
  "wf_subs subs \<Longrightarrow> \<forall>n \<in> set (map fst subs). wf_name n \<Longrightarrow> distinct (map fst subs) \<Longrightarrow>
   below mp ns q \<Longrightarrow> \<forall>n \<in> set (map fst subs). clear ds (path_join q n) \<Longrightarrow>
   e \<in> set (walk_entries self mp ds (walk_subdirs q subs)) \<Longrightarrow>
     e_dir_count e = int (length (entries_below (walk_entries self mp ds (walk_subdirs q subs)) e))"
proof (induction q d and q subs arbitrary: ds ns e and ds ns e rule: os_walk_walk_subdirs.induct)
  case (1 tp x)
  then show ?case by simp
next
  case (2 tp files subs)
  from "2.prems"(1) have wn: "\<forall>n \<in> set (map fst subs). wf_name n" and ws: "wf_subs subs"
    and dn: "distinct (map fst subs)" by simp_all
  let ?yq = "(tp, map fst subs, files)"
  let ?sw = "walk_subdirs tp subs"
  let ?Es = "walk_entries self mp ds ?sw"
  let ?F = "walk_dir_sizes self mp ds ?sw"
  let ?eq = "make_entry mp ?F ?yq"
  have E: "walk_entries self mp ds (os_walk tp (Dir files subs)) =
             ?Es @ (if excluded self mp tp then [] else [?eq])"
    by (simp add: walk_entries_append)
  have cl: "\<forall>n \<in> set (map fst subs). clear ds (path_join tp n)"
    using clear_child[OF "2.prems"(3)] wn by blast
  have sub_in: "\<exists>m \<in> set (map fst subs). wf_name m \<and> inside (path_join tp m) (e_path c)"
    if "c \<in> set ?Es" for c
  proof -
    from walk_entries_root[OF that] obtain y where y: "y \<in> set ?sw" "e_path c = fst y" by blast
    from subwalk_roots_inside[OF ws wn y(1)] y(2) wn show ?thesis by auto
  qed
  have top: "entries_below (if excluded self mp tp then [] else [?eq]) c = []"
    if "\<not> inside (e_path c) tp" for c
    using that by (simp add: entries_below_def strictly_inside_def make_entry_path)
  from "2.prems"(4) E consider (sub) "e \<in> set ?Es"
    | (self) "\<not> excluded self mp tp" "e = ?eq" by (auto split: if_splits)
  then show ?case
  proof cases
    case sub
    from sub_in[OF sub] obtain m where m: "wf_name m" "inside (path_join tp m) (e_path e)" by blast
    have "\<not> inside (e_path e) tp"
      using inside_trans[OF m(2)] not_inside_child[OF m(1), of tp] by blast
    from top[OF this] "2.IH"[OF ws wn dn "2.prems"(2) cl sub] show ?thesis
      unfolding E entries_below_append by simp
  next
    case self
    have "\<forall>c \<in> set ?Es. strictly_inside tp (e_path c)"
    proof
      fix c assume "c \<in> set ?Es"
      from sub_in[OF this] obtain m where m: "wf_name m" "inside (path_join tp m) (e_path c)" by blast
      from inside_child_parent[OF m] not_inside_child[OF m(1), of tp] m(2)
      show "strictly_inside tp (e_path c)" by (auto simp: strictly_inside_def)
    qed
    then have "entries_below ?Es e = ?Es"
      by (intro entries_below_all) (simp add: self make_entry_path)
    moreover have "entries_below [?eq] e = []"
      by (simp add: entries_below_def strictly_inside_def self make_entry_path)
    moreover have "e_dir_count e = int (length (kept self mp ?sw))"
      using subtree_totals(2)[OF ws wn dn "2.prems"(2) cl, of self]
      by (simp add: self make_entry_fields agrees_def)
    ultimately show ?thesis
      unfolding E entries_below_append using self(1) by (simp add: walk_entries_length)
  qed
next
  case (3 tp)
  then show ?case by simp
next
  case (4 tp n is_link d rest)
  from "4.prems" have wn: "wf_name n" "\<forall>m \<in> set (map fst rest). wf_name m"
    and ws: "wf_subs rest" and wd: "is_link \<or> wf_fs d"
    and dn: "n \<notin> set (map fst rest)" "distinct (map fst rest)"
    and b: "below mp ns tp"
    and cl: "clear ds (path_join tp n)" "\<forall>m \<in> set (map fst rest). clear ds (path_join tp m)"
    by simp_all
  let ?c = "path_join tp n"
  let ?here = "if is_link then [] else os_walk ?c d"
  let ?R = "walk_subdirs tp rest"
  let ?Fh = "walk_dir_sizes self mp ds ?here"
  let ?Eh = "walk_entries self mp ds ?here"
  let ?Er = "walk_entries self mp ?Fh ?R"
  have E: "walk_entries self mp ds (walk_subdirs tp ((n, is_link, d) # rest)) = ?Eh @ ?Er"
    by (simp add: walk_entries_append)
  have hin: "\<forall>y \<in> set ?here. inside ?c (fst y)"
    using wd walk_roots_inside[of d _ ?c] by (cases is_link) auto
  have eh_in: "inside ?c (e_path c)" if "c \<in> set ?Eh" for c
    using walk_entries_root[OF that] hin by auto
  have er_in: "\<exists>m \<in> set (map fst rest). wf_name m \<and> n \<noteq> m \<and> inside (path_join tp m) (e_path c)"
    if "c \<in> set ?Er" for c
  proof -
    from walk_entries_root[OF that] obtain y where y: "y \<in> set ?R" "e_path c = fst y" by blast
    from subwalk_roots_inside[OF ws wn(2) y(1)] y(2) wn(2) dn(1) show ?thesis by auto
  qed
  have clr: "\<forall>m \<in> set (map fst rest). clear ?Fh (path_join tp m)"
  proof
    fix m assume m: "m \<in> set (map fst rest)"
    with wn(2) dn(1) have "wf_name m" "n \<noteq> m" by auto
    from clear_after_sibling[OF _ wn(1) this hin] cl(2) m
    show "clear ?Fh (path_join tp m)" by blast
  qed
  from "4.prems"(6) E consider (here) "e \<in> set ?Eh" | (there) "e \<in> set ?Er" by auto
  then show ?case
  proof cases
    case here
    then have nl: "\<not> is_link" by (auto split: if_splits)
    with wd have wfd: "wf_fs d" by simp
    from here nl have here': "e \<in> set (walk_entries self mp ds (os_walk ?c d))" by simp
    from "4.IH"(1)[OF nl wfd below_child[OF b wn(1)] cl(1) here'] nl
    have ih: "e_dir_count e = int (length (entries_below ?Eh e))" by simp
    have "\<forall>c \<in> set ?Er. \<not> inside (e_path e) (e_path c)"
    proof
      fix c assume "c \<in> set ?Er"
      from er_in[OF this] obtain m where
        m: "wf_name m" "n \<noteq> m" "inside (path_join tp m) (e_path c)" by blast
      from not_inside_other_sibling[OF wn(1) m(1,2) eh_in[OF here] m(3)]
      show "\<not> inside (e_path e) (e_path c)" .
    qed
    from entries_below_none[OF this] ih show ?thesis
      unfolding E entries_below_append by simp
  next
    case there
    from "4.IH"(2)[OF ws wn(2) dn(2) b clr there]
    have ih: "e_dir_count e = int (length (entries_below ?Er e))" .
    from er_in[OF there] obtain m where
      m: "wf_name m" "n \<noteq> m" "inside (path_join tp m) (e_path e)" by blast
    have "\<forall>c \<in> set ?Eh. \<not> inside (e_path e) (e_path c)"
    proof
      fix c assume "c \<in> set ?Eh"
      from not_inside_other_sibling[OF m(1) wn(1) m(2)[symmetric] m(3) eh_in[OF this]]
      show "\<not> inside (e_path e) (e_path c)" .
    qed
    from entries_below_none[OF this] ih show ?thesis
      unfolding E entries_below_append by simp
  qed
qed

section \<open>Completed scans\<close>

lemma scan_completed:
  assumes nr: "\<not> running self"
    and fs: "fs mp = Some root_dir"
    and dn: "scan self None fs mp t0 t1 db = (Inr st, self', db')"
  shows "entries db' = entries db @ entry_rows (Suc (seq db))
                         (walk_entries self mp Map.empty (os_walk mp root_dir))"
    and "st = (stats_after (Suc (seq db)) (stats0 t0) (kept self mp (os_walk mp root_dir)))
                \<lparr> st_completed_at := Some t1 \<rparr>"
    and "scan_errors db' = scan_errors db
           @ walk_error_rows (Suc (seq db)) (kept self mp (os_walk mp root_dir))"
    and "last (snapshots db') =
           \<lparr> s_id = Suc (seq db), s_mount_point = mp, s_started_at = t0,
             s_completed_at = Some t1, s_total_size = st_total_size st,
             s_total_files = st_total_files st, s_total_dirs = st_total_dirs st,
             s_status = Completed \<rparr>"
proof -
  let ?self1 = "self\<lparr> running := True, cancelled := False \<rparr>"
  let ?db1 = "snd (create_snapshot mp t0 db)"
  let ?sid = "Suc (seq db)"
  let ?ys = "os_walk mp root_dir"
  obtain s r where sl: "scan_loop ?self1 None mp ?sid 0 ?ys (state0 t0 ?db1) = (s, r)"
    by (cases "scan_loop ?self1 None mp ?sid 0 ?ys (state0 t0 ?db1)")
  from scan_started[where fs = fs and mp = mp and self = self, OF nr fs, of None t0 t1 db] dn
  have sw: "scan_walk ?self1 None mp ?sid root_dir t0 t1 ?db1 = (Inr st, self', db')" by simp
  have r: "r = None"
    using sw sl by (cases r) (auto simp: scan_walk_def Let_def split: if_splits)
  note sl = sl[unfolded r]
  let ?db2 = "if ls_entries_batch s \<noteq> []
              then insert_entries_batch ?sid (ls_entries_batch s) (ls_db s) else ls_db s"
  let ?st = "(ls_stats s)\<lparr> st_completed_at := Some t1 \<rparr>"
  have "(Inr st :: exc + stats, self', db') = scan_walk ?self1 None mp ?sid root_dir t0 t1 ?db1"
    by (rule sw[symmetric])
  also have "\<dots> =
          (Inr ?st, ?self1\<lparr> running := False \<rparr>,
           complete_snapshot ?sid (st_total_size ?st) (st_total_files ?st) (st_total_dirs ?st) t1 ?db2)"
    using scan_walk_returns[OF sl, of t1] by (simp add: Let_def flag_read_def)
  finally have "(Inr st :: exc + stats, self', db') =
          (Inr ?st, ?self1\<lparr> running := False \<rparr>,
           complete_snapshot ?sid (st_total_size ?st) (st_total_files ?st) (st_total_dirs ?st) t1 ?db2)" .
  then have res: "st = ?st"
    "db' = complete_snapshot ?sid (st_total_size ?st) (st_total_files ?st) (st_total_dirs ?st) t1 ?db2"
    by blast+
  note run = scan_loop_run[OF sl]
  note frame = scan_loop_db_frame[OF sl]
  show "entries db' = entries db @ entry_rows ?sid (walk_entries self mp Map.empty ?ys)"
    using run
    by (simp add: res complete_snapshot_fields flushed_entries persisted_state0
          create_snapshot_fields state0_fields)
  show "st = (stats_after ?sid (stats0 t0) (kept self mp ?ys))\<lparr> st_completed_at := Some t1 \<rparr>"
    using run by (simp add: res state0_fields)
  show "scan_errors db' = scan_errors db @ walk_error_rows ?sid (kept self mp ?ys)"
    using run by (simp add: res complete_snapshot_fields flushed_frame state0_fields
        create_snapshot_fields)
  have "snapshots ?db2 = snapshots ?db1"
    using frame by (simp add: flushed_frame state0_fields)
  then show "last (snapshots db') =
           \<lparr> s_id = Suc (seq db), s_mount_point = mp, s_started_at = t0,
             s_completed_at = Some t1, s_total_size = st_total_size st,
             s_total_files = st_total_files st, s_total_dirs = st_total_dirs st,
             s_status = Completed \<rparr>"
    unfolding res(2) complete_snapshot_fields
    by (simp add: create_snapshot_fields res(1))
qed

lemma clear_empty: "clear Map.empty q"
  by (simp add: clear_def)

lemma entry_at_Some: "entry_at es p = Some e \<Longrightarrow> e \<in> set es \<and> e_path e = p"
  by (auto simp: entry_at_def find_Some_iff)

lemma listed_below_count:
  "length (filter (\<lambda>c. strictly_inside q (e_path c)) (walk_entries self mp ds (os_walk mp root_dir)))
   = length (filter (\<lambda>pk. snd pk = ListedDir \<and> strictly_inside q (fst pk)
                            \<and> \<not> excluded self mp (fst pk)) (tree_nodes mp root_dir))"
proof -
  have "length (filter (\<lambda>c. strictly_inside q (e_path c)) (walk_entries self mp ds (os_walk mp root_dir)))
      = length (filter (strictly_inside q) (map e_path (walk_entries self mp ds (os_walk mp root_dir))))"
    by (simp add: filter_map comp_def)
  also have "\<dots> = length (filter (strictly_inside q)
                 (filter (\<lambda>p. \<not> excluded self mp p) (map fst (os_walk mp root_dir))))"
    by (simp only: walk_entries_paths kept_def filter_map comp_def)
  also have "\<dots> = length (filter (\<lambda>pk. snd pk = ListedDir \<and> strictly_inside q (fst pk)
                            \<and> \<not> excluded self mp (fst pk)) (tree_nodes mp root_dir))"
    unfolding walk_roots_listed(1) by (simp add: filter_map comp_def conj_commute conj_left_commute)
  finally show ?thesis .
qed

text \<open>
  C1, as the claim words it, fails in its last part. In the small tree \<^verbatim>\<open>/data/locked\<close> is a
  directory below \<^verbatim>\<open>/data\<close> that is neither skipped nor beyond the depth limit, and so is
  \<^verbatim>\<open>/data/a\<close>; the scan completes, and the entry of \<^verbatim>\<open>/data\<close> has \<^verbatim>\<open>dir_count\<close> 1, not 2:
  the listing of \<^verbatim>\<open>/data/locked\<close> fails, no \<^verbatim>\<open>dir_sizes\<close> key exists for it, and the loop over
  \<^verbatim>\<open>dirs\<close> passes it by.
\<close>

theorem dir_count_counterexample:
  "(''/data/locked'', UnlistableDir) \<in> set (tree_nodes ''/data'' fs_small)
   \<and> strictly_inside ''/data'' ''/data/locked''
   \<and> \<not> excluded (DiskScanner_init None 0) ''/data'' ''/data/locked''
   \<and> (''/data/a'', ListedDir) \<in> set (tree_nodes ''/data'' fs_small)
   \<and> strictly_inside ''/data'' ''/data/a''
   \<and> \<not> excluded (DiskScanner_init None 0) ''/data'' ''/data/a''
   \<and> map s_status (snapshots (scanned_db (scan (DiskScanner_init None 0) None
                   (fs_at ''/data'' fs_small) ''/data'' 1 2 db_empty))) = [Completed]
   \<and> entry_dir_counts (scanned_db (scan (DiskScanner_init None 0) None
                   (fs_at ''/data'' fs_small) ''/data'' 1 2 db_empty))
       = [(''/data/a'', 0), (''/data'', 1)]"
  by code_simp

text \<open>
  C1, amended. In a completed scan of a well-formed tree the new rows are one entry per
  processed directory (listed by the walk, not skipped, within the depth limit), with
  pairwise different paths. For each processed directory the entry's size is the sum of the
  sizes of the files directly inside it (those whose metadata could be read) plus the sizes
  of the entries of its immediate child directories that have one; \<^verbatim>\<open>file_count\<close>
  aggregates the same way, and \<^verbatim>\<open>dir_count\<close> is the sum over these children of the child's
  \<^verbatim>\<open>dir_count\<close> plus one. The \<^verbatim>\<open>dir_count\<close> of every entry is the number of entries of the
  snapshot that lie strictly below it, which is the number of directories of the tree
  strictly below it that were listed and are not excluded: each of them is counted exactly
  once, and a descendant whose listing failed or that is a symbolic link is not counted.
\<close>

theorem scan_entries_aggregate:
  assumes nr: "\<not> running self"
    and fs: "fs mp = Some root_dir"
    and wf: "wf_fs root_dir"
    and dn: "scan self None fs mp t0 t1 db = (Inr st, self', db')"
  shows "\<exists>es. entries db' = entries db @ entry_rows (Suc (seq db)) es
           \<and> map e_path es = map fst (kept self mp (os_walk mp root_dir))
           \<and> distinct (map e_path es)
           \<and> (\<forall>y \<in> set (kept self mp (os_walk mp root_dir)).
                 \<exists>e \<in> set es. e_path e = fst y
                   \<and> e_size e = sum_list (ok_sizes (files_of y))
                        + sum_list (map e_size (child_entries (entry_at es) (fst y) (dirs_of y)))
                   \<and> e_file_count e = int (length (ok_sizes (files_of y)))
                        + sum_list (map e_file_count (child_entries (entry_at es) (fst y) (dirs_of y)))
                   \<and> e_dir_count e =
                        sum_list (map (\<lambda>c. e_dir_count c + 1)
                                   (child_entries (entry_at es) (fst y) (dirs_of y))))
           \<and> (\<forall>e \<in> set es. e_dir_count e = int (length (entries_below es e)))
           \<and> (\<forall>e \<in> set es. e_dir_count e =
                 int (length (filter (\<lambda>pk. snd pk = ListedDir
                                            \<and> strictly_inside (e_path e) (fst pk)
                                            \<and> \<not> excluded self mp (fst pk))
                                (tree_nodes mp root_dir))))"
proof -
  let ?ys = "os_walk mp root_dir"
  let ?E = "walk_entries self mp Map.empty ?ys"
  have d: "distinct (map fst ?ys)" by (rule walk_roots_distinct[OF wf])
  have F: "walk_dir_sizes self mp Map.empty ?ys = entry_at ?E"
    by (rule walk_dir_sizes_empty[OF d])
  have a: "entries db' = entries db @ entry_rows (Suc (seq db)) ?E"
    by (rule scan_completed(1)[OF nr fs dn])
  have b: "map e_path ?E = map fst (kept self mp ?ys)" by (rule walk_entries_paths)
  have c: "distinct (map e_path ?E)"
    unfolding b kept_def using d by (rule distinct_map_filter)
  have e: "\<exists>e \<in> set ?E. e_path e = fst y
                   \<and> e_size e = sum_list (ok_sizes (files_of y))
                        + sum_list (map e_size (child_entries (entry_at ?E) (fst y) (dirs_of y)))
                   \<and> e_file_count e = int (length (ok_sizes (files_of y)))
                        + sum_list (map e_file_count (child_entries (entry_at ?E) (fst y) (dirs_of y)))
                   \<and> e_dir_count e =
                        sum_list (map (\<lambda>c. e_dir_count c + 1)
                                   (child_entries (entry_at ?E) (fst y) (dirs_of y)))"
    if y: "y \<in> set (kept self mp ?ys)" for y
  proof -
    obtain rt dirs files where yy: "y = (rt, dirs, files)" by (cases y)
    from walk_entries_final[OF walk_postorder(1)[OF wf] y, of Map.empty]
    have "make_entry mp (entry_at ?E) y \<in> set ?E" by (simp only: F)
    then show ?thesis
      by (intro bexI[of _ "make_entry mp (entry_at ?E) y"])
         (simp_all add: yy make_entry_fields files_of_def dirs_of_def)
  qed
  have g: "\<forall>e \<in> set ?E. e_dir_count e = int (length (entries_below ?E e))"
    using subtree_dir_counts(1)[OF wf below_root clear_empty] by blast
  have h: "\<forall>e \<in> set ?E. e_dir_count e =
                 int (length (filter (\<lambda>pk. snd pk = ListedDir
                                            \<and> strictly_inside (e_path e) (fst pk)
                                            \<and> \<not> excluded self mp (fst pk))
                                (tree_nodes mp root_dir)))"
    using g unfolding entries_below_def listed_below_count by simp
  from a b c e g h show ?thesis by blast
qed

text \<open>
  C10, as the claim words it, fails: a root that is a directory and is not skipped, but
  whose listing fails, makes the walk yield nothing; the scan completes with a total of 0
  directories and the snapshot holds no entry at all, so no root entry exists.
\<close>

theorem unlistable_root_counterexample:
  "\<not> should_skip (DiskScanner_init None 0) ''/data''
   \<and> map s_status (snapshots (scanned_db (scan (DiskScanner_init None 0) None
                   (fs_at ''/data'' (Unlistable (Exc ''PermissionError'' ''denied'')))
                   ''/data'' 1 2 db_empty))) = [Completed]
   \<and> map s_total_dirs (snapshots (scanned_db (scan (DiskScanner_init None 0) None
                   (fs_at ''/data'' (Unlistable (Exc ''PermissionError'' ''denied'')))
                   ''/data'' 1 2 db_empty))) = [0]
   \<and> entry_paths (scanned_db (scan (DiskScanner_init None 0) None
                   (fs_at ''/data'' (Unlistable (Exc ''PermissionError'' ''denied'')))
                   ''/data'' 1 2 db_empty)) = []"
  by code_simp

text \<open>
  C10, amended. When a scan of a well-formed tree completes and its root could be listed and
  is not skipped, the snapshot has exactly one entry for the mount point, and the totals
  returned and persisted are those of this entry: its size, its \<^verbatim>\<open>file_count\<close> and its
  \<^verbatim>\<open>dir_count\<close> plus one.
\<close>

theorem scan_totals_root:
  assumes nr: "\<not> running self"
    and fs: "fs mp = Some (Dir files subs)"
    and wf: "wf_fs (Dir files subs)"
    and ns: "\<not> should_skip self mp"
    and dn: "scan self None fs mp t0 t1 db = (Inr st, self', db')"
  shows "\<exists>es e. entries db' = entries db @ entry_rows (Suc (seq db)) es
           \<and> e \<in> set es \<and> e_path e = mp
           \<and> (\<forall>c \<in> set es. e_path c = mp \<longrightarrow> c = e)
           \<and> st_total_size st = e_size e
           \<and> st_total_files st = e_file_count e
           \<and> st_total_dirs st = e_dir_count e + 1
           \<and> last (snapshots db') =
                \<lparr> s_id = Suc (seq db), s_mount_point = mp, s_started_at = t0,
                  s_completed_at = Some t1, s_total_size = e_size e,
                  s_total_files = e_file_count e, s_total_dirs = e_dir_count e + 1,
                  s_status = Completed \<rparr>"
proof -
  let ?root = "Dir files subs"
  let ?ys = "os_walk mp ?root"
  let ?E = "walk_entries self mp Map.empty ?ys"
  let ?K = "kept self mp ?ys"
  have nex: "\<not> excluded self mp mp" using ns by (simp add: excluded_def get_depth_def)
  have d: "distinct (map fst ?ys)" by (rule walk_roots_distinct[OF wf])
  have F: "walk_dir_sizes self mp Map.empty ?ys = entry_at ?E"
    by (rule walk_dir_sizes_empty[OF d])
  have kne: "?K \<noteq> []" using nex by (simp add: kept_append kept_Cons)
  have ex: "excluded self mp mp \<longrightarrow> ([]::string list) \<noteq> [] \<and> dir_prefix mp = mp @ ''/''"
    using nex by simp
  from subtree_totals(1)[OF wf below_root ex clear_empty]
  have "case entry_at ?E mp of None \<Rightarrow> ?K = [] | Some e \<Rightarrow> agrees [e] ?K"
    unfolding F .
  with kne obtain e where e: "entry_at ?E mp = Some e" "agrees [e] ?K"
    by (cases "entry_at ?E mp") (auto simp del: os_walk.simps)
  from entry_at_Some[OF e(1)] have ein: "e \<in> set ?E" "e_path e = mp" by simp_all
  have c: "distinct (map e_path ?E)"
    unfolding walk_entries_paths kept_def using d by (rule distinct_map_filter)
  have uq: "\<forall>c \<in> set ?E. e_path c = mp \<longrightarrow> c = e"
    using c ein by (auto simp: distinct_map inj_on_def)
  note sc = scan_completed[OF nr fs dn]
  from sc(2) e(2) have tot: "st_total_size st = e_size e" "st_total_files st = e_file_count e"
    "st_total_dirs st = e_dir_count e + 1"
    by (simp_all add: stats_after_def stats0_def agrees_def)
  from sc(1) ein uq tot sc(4)[unfolded tot] show ?thesis by blast
qed

lemma walk_subdirs_append:
  "walk_subdirs q (a @ b) = walk_subdirs q a @ walk_subdirs q b"
  by (induction a) auto

lemma error_rows_paths:
  "x \<in> set (error_rows sid rt files) \<Longrightarrow> \<exists>f \<in> set files. se_path x = path_join rt (fst f)"
  by (force simp: error_rows_def split: sum.splits)

text \<open>
  C4, amended. For a directory whose listing fails, a completed scan of a well-formed tree
  persists no entry and no error row with its path: the handler given to \<^verbatim>\<open>os.walk\<close> only
  writes to the process log. Every listed directory that is not excluded still gets its
  entry, and the walk goes on with the siblings before and after the unlistable directory.
\<close>

theorem unlistable_directory_ignored:
  assumes nr: "\<not> running self"
    and fs: "fs mp = Some root_dir"
    and wf: "wf_fs root_dir"
    and dn: "scan self None fs mp t0 t1 db = (Inr st, self', db')"
    and un: "(p, UnlistableDir) \<in> set (tree_nodes mp root_dir)"
  shows "\<exists>es xs. entries db' = entries db @ entry_rows (Suc (seq db)) es
           \<and> scan_errors db' = scan_errors db @ xs
           \<and> p \<notin> e_path ` set es
           \<and> p \<notin> se_path ` set xs
           \<and> map e_path es = map fst (kept self mp (os_walk mp root_dir))
           \<and> (\<forall>q a n e b. walk_subdirs q (a @ (n, False, Unlistable e) # b)
                             = walk_subdirs q a @ walk_subdirs q b)"
proof -
  let ?ys = "os_walk mp root_dir"
  let ?E = "walk_entries self mp Map.empty ?ys"
  let ?X = "walk_error_rows (Suc (seq db)) (kept self mp ?ys)"
  note sc = scan_completed[OF nr fs dn]
  have dd: "distinct (map fst (tree_nodes mp root_dir))" by (rule nodes_distinct(1)[OF wf])
  have a: "p \<notin> e_path ` set ?E"
  proof
    assume "p \<in> e_path ` set ?E"
    then obtain e where "e \<in> set ?E" "e_path e = p" by auto
    with walk_entries_root[of e self mp Map.empty ?ys] obtain y where
      y: "y \<in> set ?ys" "fst y = p" by auto
    from walk_nodes(1)[OF y(1)] y(2) have "(p, ListedDir) \<in> set (tree_nodes mp root_dir)" by simp
    from eq_key_imp_eq_value[OF dd this un] show False by simp
  qed
  have b: "p \<notin> se_path ` set ?X"
  proof
    assume "p \<in> se_path ` set ?X"
    then obtain x where x: "x \<in> set ?X" "se_path x = p" by auto
    then obtain y where y: "y \<in> set (kept self mp ?ys)"
      "x \<in> set (error_rows (Suc (seq db)) (fst y) (files_of y))"
      by (auto simp: walk_error_rows_def)
    from error_rows_paths[OF y(2)] obtain f where
      f: "f \<in> set (files_of y)" "se_path x = path_join (fst y) (fst f)" by blast
    from y(1) kept_subset[of self mp ?ys] have "y \<in> set ?ys" by auto
    from walk_file_nodes(1)[OF this f(1)] f(2) x(2)
    have "(p, FileNode) \<in> set (tree_nodes mp root_dir)" by simp
    from eq_key_imp_eq_value[OF dd this un] show False by simp
  qed
  have c: "\<forall>q a n e b. walk_subdirs q (a @ (n, False, Unlistable e) # b)
                             = walk_subdirs q a @ walk_subdirs q b"
    by (simp add: walk_subdirs_append)
  from sc(1) sc(3) a b c walk_entries_paths[of self mp Map.empty ?ys] show ?thesis by blast
qed

text \<open>
  C4, as the claim words it, fails: \<^verbatim>\<open>/data/locked\<close> cannot be listed, and the scan persists
  neither an entry nor an error row for it.
\<close>

theorem unlistable_directory_counterexample:
  "(''/data/locked'', UnlistableDir) \<in> set (tree_nodes ''/data'' fs_small)
   \<and> entry_paths (scanned_db (scan (DiskScanner_init None 0) None (fs_at ''/data'' fs_small)
                                 ''/data'' 1 2 db_empty))
       = [''/data/a'', ''/data'']
   \<and> map se_path (scan_errors (scanned_db (scan (DiskScanner_init None 0) None
                                 (fs_at ''/data'' fs_small) ''/data'' 1 2 db_empty)))
       = [''/data/bad'']"
  by code_simp

lemma small_scan_returns:
  obtains st self' db' where
    "scan (DiskScanner_init None 0) None (fs_at ''/data'' fs_small) ''/data'' 1 2 db_empty
       = (Inr st, self', db')"
proof -
  let ?sc = "scan (DiskScanner_init None 0) None (fs_at ''/data'' fs_small) ''/data'' 1 2 db_empty"
  obtain r self' db' where sc: "?sc = (r, self', db')" by (cases ?sc)
  have "(case fst ?sc of Inr st \<Rightarrow> True | Inl e \<Rightarrow> False)" by code_simp
  with sc obtain st where "r = Inr st" by (cases r) auto
  with sc that show ?thesis by blast
qed

lemma small_facts:
  "\<not> running (DiskScanner_init None 0)"
  "fs_at ''/data'' fs_small ''/data'' = Some fs_small"
  "wf_fs fs_small"
  "seq db_empty = 0" "entries db_empty = []" "scan_errors db_empty = []"
  by (simp_all add: DiskScanner_init_def fs_at_def fs_small_def wf_name_def db_empty_def)

theorem unlistable_directory_ignored_witness:
  "''/data/locked'' \<notin> set (entry_paths (scanned_db (scan (DiskScanner_init None 0) None
                              (fs_at ''/data'' fs_small) ''/data'' 1 2 db_empty)))
   \<and> ''/data/locked'' \<notin> set (map se_path (scan_errors (scanned_db (scan (DiskScanner_init None 0)
                              None (fs_at ''/data'' fs_small) ''/data'' 1 2 db_empty))))"
proof -
  obtain st self' db' where
    sc: "scan (DiskScanner_init None 0) None (fs_at ''/data'' fs_small) ''/data'' 1 2 db_empty
           = (Inr st, self', db')"
    by (rule small_scan_returns)
  have un: "(''/data/locked'', UnlistableDir) \<in> set (tree_nodes ''/data'' fs_small)"
    by code_simp
  from unlistable_directory_ignored [where fs = "fs_at ''/data'' fs_small" and mp = "''/data''",
      OF small_facts(1,2,3) sc un]
  obtain es xs where
    "entries db' = entries db_empty @ entry_rows (Suc (seq db_empty)) es"
    "scan_errors db' = scan_errors db_empty @ xs"
    "''/data/locked'' \<notin> e_path ` set es" "''/data/locked'' \<notin> se_path ` set xs"
    by blast
  then show ?thesis
    unfolding sc by (simp add: scanned_db_def entry_paths_def small_facts entry_rows_def image_comp comp_def)
qed

theorem scan_entries_aggregate_witness:
  "entry_paths (scanned_db (scan (DiskScanner_init None 0) None (fs_at ''/data'' fs_small)
                                 ''/data'' 1 2 db_empty))
     = [''/data/a'', ''/data'']"
proof -
  obtain st self' db' where
    sc: "scan (DiskScanner_init None 0) None (fs_at ''/data'' fs_small) ''/data'' 1 2 db_empty
           = (Inr st, self', db')"
    by (rule small_scan_returns)
  have k: "map fst (kept (DiskScanner_init None 0) ''/data'' (os_walk ''/data'' fs_small))
             = [''/data/a'', ''/data'']"
    by code_simp
  from scan_entries_aggregate [where fs = "fs_at ''/data'' fs_small" and mp = "''/data''",
      OF small_facts(1,2,3) sc]
  obtain es where
    "entries db' = entries db_empty @ entry_rows (Suc (seq db_empty)) es"
    "map e_path es = map fst (kept (DiskScanner_init None 0) ''/data'' (os_walk ''/data'' fs_small))"
    by blast
  then show ?thesis
    unfolding sc by (simp add: scanned_db_def entry_paths_def small_facts entry_rows_def k comp_def)
qed

theorem scan_totals_root_witness:
  "\<exists>e. e \<in> r_entry ` set (entries (scanned_db (scan (DiskScanner_init None 0) None
                                (fs_at ''/data'' fs_small) ''/data'' 1 2 db_empty)))
       \<and> e_path e = ''/data''
       \<and> s_total_size (last (snapshots (scanned_db (scan (DiskScanner_init None 0) None
                                (fs_at ''/data'' fs_small) ''/data'' 1 2 db_empty)))) = e_size e
       \<and> s_total_files (last (snapshots (scanned_db (scan (DiskScanner_init None 0) None
                                (fs_at ''/data'' fs_small) ''/data'' 1 2 db_empty)))) = e_file_count e
       \<and> s_total_dirs (last (snapshots (scanned_db (scan (DiskScanner_init None 0) None
                                (fs_at ''/data'' fs_small) ''/data'' 1 2 db_empty)))) = e_dir_count e + 1"
proof -
  obtain st self' db' where
    sc: "scan (DiskScanner_init None 0) None (fs_at ''/data'' fs_small) ''/data'' 1 2 db_empty
           = (Inr st, self', db')"
    by (rule small_scan_returns)
  have ns: "\<not> should_skip (DiskScanner_init None 0) ''/data''" by code_simp
  let ?files = "[(''f1'', Inr 10), (''bad'', Inl (Exc ''PermissionError'' ''denied''))]"
  let ?subs = "[(''a'', False, Dir [(''g'', Inr 5)] []),
                (''locked'', False, Unlistable (Exc ''PermissionError'' ''no'')),
                (''lnk'', True, Dir [] [])]"
  have f: "fs_at ''/data'' fs_small ''/data'' = Some (Dir ?files ?subs)" "wf_fs (Dir ?files ?subs)"
    by (simp_all add: fs_at_def fs_small_def wf_name_def)
  from scan_totals_root [where fs = "fs_at ''/data'' fs_small" and mp = "''/data''",
      OF small_facts(1) f ns sc]
  obtain es e where
    a: "entries db' = entries db_empty @ entry_rows (Suc (seq db_empty)) es"
    "e \<in> set es" "e_path e = ''/data''"
    and b: "last (snapshots db') =
                \<lparr> s_id = Suc (seq db_empty), s_mount_point = ''/data'', s_started_at = 1,
                  s_completed_at = Some 2, s_total_size = e_size e,
                  s_total_files = e_file_count e, s_total_dirs = e_dir_count e + 1,
                  s_status = Completed \<rparr>"
    by blast
  from a have "e \<in> r_entry ` set (entries db')"
    by (force simp: small_facts entry_rows_def)
  with a(3) b show ?thesis
    unfolding sc by (intro exI[of _ e]) (simp add: scanned_db_def)
qed
end
